theory Spec2Isabelle
  imports Main "HOL-Library.Word" "HOL-Library.Sublist" "HOL-Library.AList"
begin

section \<open>Go's \<open>strings\<close> functions used by the tag engine\<close>

text \<open>
  A Go string is a byte sequence; \<open>string\<close> (a list of 8-bit characters) models it byte
  for byte. Every separator and cutset the tag engine passes is ASCII, so byte-wise
  definitions agree with Go's.
\<close>

definition HasPrefix :: "string \<Rightarrow> string \<Rightarrow> bool" where
  "HasPrefix s p = prefix p s"

definition TrimPrefix :: "string \<Rightarrow> string \<Rightarrow> string" where
  "TrimPrefix s p = (if HasPrefix s p then drop (length p) s else s)"

fun Contains :: "string \<Rightarrow> string \<Rightarrow> bool" where
  "Contains [] sub = (sub = [])"
| "Contains (c # s) sub = (prefix sub (c # s) \<or> Contains s sub)"

definition Trim :: "string \<Rightarrow> string \<Rightarrow> string" where
  "Trim s cutset =
     rev (dropWhile (\<lambda>c. c \<in> set cutset) (rev (dropWhile (\<lambda>c. c \<in> set cutset) s)))"

text \<open>
  \<open>strings.Split(s, sep)\<close> for a non-empty separator: the pieces between the
  non-overlapping occurrences of \<open>sep\<close>, found left to right; \<open>cur\<close> is the piece being
  read. (With an empty separator Go explodes the string into its UTF-8 sequences; the
  engine never does that, and the model then returns the bytes.)
\<close>

function splitFrom :: "string \<Rightarrow> string \<Rightarrow> string \<Rightarrow> string list" where
  "splitFrom sep cur [] = [cur]"
| "splitFrom sep cur (c # s) =
     (if sep \<noteq> [] \<and> prefix sep (c # s)
      then cur # splitFrom sep [] (drop (length sep) (c # s))
      else splitFrom sep (cur @ [c]) s)"
  by pat_completeness auto
termination
  by (relation "measure (\<lambda>(sep, cur, s). length s)") auto

definition Split :: "string \<Rightarrow> string \<Rightarrow> string list" where
  "Split s sep = (if sep = [] then map (\<lambda>c. [c]) s else splitFrom sep [] s)"

section \<open>The content tree\<close>

text \<open>
  Modelled from the spec: the node types of the external parser, whose declarations are
  not part of the sources, with the kinds of the spec's content tree and the fields the
  engine reads. Leaves carry their payload (\<open>Tag.Content\<close>,
  \<open>EmbeddedContent.ResourceName\<close>); containers carry their ordered children, and
  \<open>TaskListItem\<close> also \<open>Complete\<close>. \<open>OtherNode\<close> stands for every further kind, which the
  engine's type switches send to \<open>default\<close>.
\<close>

datatype node =
    Tag string
  | Text string
  | Link string
  | AutoLink string
  | CodeBlock string
  | EmbeddedContent string
  | OtherNode string
  | Paragraph "node list"
  | Heading "node list"
  | Blockquote "node list"
  | List "node list"
  | OrderedListItem "node list"
  | UnorderedListItem "node list"
  | TaskListItem bool "node list"
  | Bold "node list"
  | Italic "node list"

section \<open>Stored entities\<close>

text \<open>
  The message and store types are generated or declared outside the sources; the
  records have the fields the engine reads and writes, under their names. The integer
  ids are never computed with and are \<open>int\<close>; the counts are \<open>int32\<close> and are
  \<open>32 word\<close>, read with \<open>sint\<close>.
\<close>

record TagNode =
  Name :: string
  PathSegments :: "string list"
  MemoIds :: "string list"
  CreatorId :: int

record MemoPayload_Property =
  HasLink :: bool
  HasTaskList :: bool
  HasCode :: bool
  HasIncompleteTasks :: bool
  References :: "string list"

record MemoPayload =
  Tags :: "TagNode list"
  Property :: "MemoPayload_Property option"

text \<open>
  The store's request types. A tag filter is the expression the engine formats,
  \<open>tag in ["p"]\<close> or \<open>tag starts_with ["p"]\<close>, kept as its kind and its argument.
\<close>

datatype TagFilter = TagIn string | TagStartsWith string

record FindMemo =
  CreatorID :: "int option"
  UID :: "string option"
  Filters :: "TagFilter list"
  ExcludeComments :: bool

record UpdateMemo =
  ID :: int
  Content :: "string option"
  Payload :: "MemoPayload option"

record Memo =
  ID :: int
  UID :: string
  CreatorID :: int
  Content :: string
  Payload :: "MemoPayload option"
  ParentID :: "int option"

section \<open>Rebuilding the tag cache (memopayload)\<close>

text \<open>
  \<open>TraverseASTNodes\<close> calls \<open>fn\<close> on every node in pre-order and descends into the
  eight container kinds of its type switch (\<open>Italic\<close> is not among them). The callback
  of the source mutates variables of its closure; here it transforms a state \<open>'s\<close>.
\<close>

fun TraverseASTNodes :: "node list \<Rightarrow> (node \<Rightarrow> 's \<Rightarrow> 's) \<Rightarrow> 's \<Rightarrow> 's" where
  "TraverseASTNodes [] fn s = s"
| "TraverseASTNodes (Paragraph cs # ns) fn s =
     TraverseASTNodes ns fn (TraverseASTNodes cs fn (fn (Paragraph cs) s))"
| "TraverseASTNodes (Heading cs # ns) fn s =
     TraverseASTNodes ns fn (TraverseASTNodes cs fn (fn (Heading cs) s))"
| "TraverseASTNodes (Blockquote cs # ns) fn s =
     TraverseASTNodes ns fn (TraverseASTNodes cs fn (fn (Blockquote cs) s))"
| "TraverseASTNodes (List cs # ns) fn s =
     TraverseASTNodes ns fn (TraverseASTNodes cs fn (fn (List cs) s))"
| "TraverseASTNodes (OrderedListItem cs # ns) fn s =
     TraverseASTNodes ns fn (TraverseASTNodes cs fn (fn (OrderedListItem cs) s))"
| "TraverseASTNodes (UnorderedListItem cs # ns) fn s =
     TraverseASTNodes ns fn (TraverseASTNodes cs fn (fn (UnorderedListItem cs) s))"
| "TraverseASTNodes (TaskListItem b cs # ns) fn s =
     TraverseASTNodes ns fn (TraverseASTNodes cs fn (fn (TaskListItem b cs) s))"
| "TraverseASTNodes (Bold cs # ns) fn s =
     TraverseASTNodes ns fn (TraverseASTNodes cs fn (fn (Bold cs) s))"
| "TraverseASTNodes (n # ns) fn s = TraverseASTNodes ns fn (fn n s)"

definition buildTagNode :: "string \<Rightarrow> TagNode" where
  "buildTagNode tag =
     (let name = (if \<not> HasPrefix tag ''/'' \<and> Contains tag ''/'' then ''/'' @ tag else tag);
          pathSegments =
            (if HasPrefix name ''/''
             then (let segments = Split (Trim name ''/'') ''/''
                   in if length segments > 0 \<and> hd segments \<noteq> [] then segments else [])
             else [name])
      in \<lparr>Name = name, PathSegments = pathSegments, MemoIds = [], CreatorId = 0\<rparr>)"

text \<open>The callback of \<open>RebuildMemoPayload\<close>, on the pair of its two closure variables.\<close>

fun rebuildVisit :: "node \<Rightarrow> string list \<times> MemoPayload_Property \<Rightarrow> string list \<times> MemoPayload_Property" where
  "rebuildVisit (Tag tag) (tags, property) =
     (if tag \<in> set tags then (tags, property) else (tags @ [tag], property))"
| "rebuildVisit (Link l) (tags, property) = (tags, property\<lparr>HasLink := True\<rparr>)"
| "rebuildVisit (AutoLink l) (tags, property) = (tags, property\<lparr>HasLink := True\<rparr>)"
| "rebuildVisit (TaskListItem complete cs) (tags, property) =
     (tags, if \<not> complete then property\<lparr>HasTaskList := True, HasIncompleteTasks := True\<rparr>
            else property\<lparr>HasTaskList := True\<rparr>)"
| "rebuildVisit (CodeBlock c) (tags, property) = (tags, property\<lparr>HasCode := True\<rparr>)"
| "rebuildVisit (EmbeddedContent resourceName) (tags, property) =
     (tags, property\<lparr>References := References property @ [resourceName]\<rparr>)"
| "rebuildVisit n (tags, property) = (tags, property)"

text \<open>
  \<open>RebuildMemoPayload\<close>. The parser is the external collaborator \<open>Parse(text) -> tree\<close>;
  it is the parameter \<open>parse\<close>, whose \<open>Inl\<close> is its parse error. The memo is updated in
  place in the source; the model returns the updated memo.
\<close>

definition RebuildMemoPayload :: "(string \<Rightarrow> string + node list) \<Rightarrow> Memo \<Rightarrow> string + Memo" where
  "RebuildMemoPayload parse memo =
     (case parse (Content memo) of
        Inl err \<Rightarrow> Inl (''failed to parse content: '' @ err)
      | Inr nodes \<Rightarrow>
          (let payload = (case Payload memo of None \<Rightarrow> \<lparr>Tags = [], Property = None\<rparr> | Some p \<Rightarrow> p);
               (tags, property) =
                 TraverseASTNodes nodes rebuildVisit
                   ([], \<lparr>HasLink = False, HasTaskList = False, HasCode = False,
                          HasIncompleteTasks = False, References = []\<rparr>);
               tagNodes = map buildTagNode tags
           in Inr (memo\<lparr>Payload := Some (payload\<lparr>Tags := tagNodes, Property := Some property\<rparr>)\<rparr>)))"

text \<open>
  The raw tags the traversal reaches, in pre-order: a \<open>Tag\<close> leaf gives its content, the
  eight traversed container kinds give those of their children, and nothing below any
  other node is reached.
\<close>

fun traversedTags :: "node list \<Rightarrow> string list" where
  "traversedTags [] = []"
| "traversedTags (Tag c # ns) = c # traversedTags ns"
| "traversedTags (Paragraph cs # ns) = traversedTags cs @ traversedTags ns"
| "traversedTags (Heading cs # ns) = traversedTags cs @ traversedTags ns"
| "traversedTags (Blockquote cs # ns) = traversedTags cs @ traversedTags ns"
| "traversedTags (List cs # ns) = traversedTags cs @ traversedTags ns"
| "traversedTags (OrderedListItem cs # ns) = traversedTags cs @ traversedTags ns"
| "traversedTags (UnorderedListItem cs # ns) = traversedTags cs @ traversedTags ns"
| "traversedTags (TaskListItem b cs # ns) = traversedTags cs @ traversedTags ns"
| "traversedTags (Bold cs # ns) = traversedTags cs @ traversedTags ns"
| "traversedTags (n # ns) = traversedTags ns"

definition parse_todo_work :: "string \<Rightarrow> string + node list" where
  "parse_todo_work content = Inr [Paragraph [Text ''todo '', Tag ''work'']]"

definition memo_todo_work :: Memo where
  "memo_todo_work =
     \<lparr>ID = 1, UID = ''m1'', CreatorID = 7, Content = ''todo #work'', Payload = None,
      ParentID = None\<rparr>"

section \<open>The structural tag remover\<close>

text \<open>
  \<open>removeTagFromNodes\<close> rebuilds the node list: a \<open>Tag\<close> whose content is the target is
  left out, the nine container kinds of its type switch get their children rebuilt, and
  every other node is kept as it is.
\<close>

fun removeTagFromNodes :: "node list \<Rightarrow> string \<Rightarrow> node list" where
  "removeTagFromNodes [] tagToRemove = []"
| "removeTagFromNodes (Tag c # ns) tagToRemove =
     (if c \<noteq> tagToRemove then Tag c # removeTagFromNodes ns tagToRemove
      else removeTagFromNodes ns tagToRemove)"
| "removeTagFromNodes (Paragraph cs # ns) tagToRemove =
     Paragraph (removeTagFromNodes cs tagToRemove) # removeTagFromNodes ns tagToRemove"
| "removeTagFromNodes (Heading cs # ns) tagToRemove =
     Heading (removeTagFromNodes cs tagToRemove) # removeTagFromNodes ns tagToRemove"
| "removeTagFromNodes (Blockquote cs # ns) tagToRemove =
     Blockquote (removeTagFromNodes cs tagToRemove) # removeTagFromNodes ns tagToRemove"
| "removeTagFromNodes (List cs # ns) tagToRemove =
     List (removeTagFromNodes cs tagToRemove) # removeTagFromNodes ns tagToRemove"
| "removeTagFromNodes (OrderedListItem cs # ns) tagToRemove =
     OrderedListItem (removeTagFromNodes cs tagToRemove) # removeTagFromNodes ns tagToRemove"
| "removeTagFromNodes (UnorderedListItem cs # ns) tagToRemove =
     UnorderedListItem (removeTagFromNodes cs tagToRemove) # removeTagFromNodes ns tagToRemove"
| "removeTagFromNodes (TaskListItem b cs # ns) tagToRemove =
     TaskListItem b (removeTagFromNodes cs tagToRemove) # removeTagFromNodes ns tagToRemove"
| "removeTagFromNodes (Bold cs # ns) tagToRemove =
     Bold (removeTagFromNodes cs tagToRemove) # removeTagFromNodes ns tagToRemove"
| "removeTagFromNodes (Italic cs # ns) tagToRemove =
     Italic (removeTagFromNodes cs tagToRemove) # removeTagFromNodes ns tagToRemove"
| "removeTagFromNodes (n # ns) tagToRemove = n # removeTagFromNodes ns tagToRemove"

text \<open>
  Modelled from the spec: the external serializer \<open>Restore(tree) -> text\<close>, which is not
  part of the sources. Example A of the spec fixes it on the three kinds that occur
  there: a \<open>Text\<close> leaf is its content, a \<open>Tag\<close> leaf is the sigil \<open>#\<close> followed by its
  content, a \<open>Paragraph\<close> is its children one after the other, and a node list is its
  nodes one after the other. What the serializer writes for any other kind is the
  parameter \<open>ext\<close>.
\<close>

fun RestoreNode :: "(node \<Rightarrow> string) \<Rightarrow> node \<Rightarrow> string" where
  "RestoreNode ext (Text c) = c"
| "RestoreNode ext (Tag c) = CHR ''#'' # c"
| "RestoreNode ext (Paragraph cs) = concat (map (RestoreNode ext) cs)"
| "RestoreNode ext n = ext n"

definition Restore :: "(node \<Rightarrow> string) \<Rightarrow> node list \<Rightarrow> string" where
  "Restore ext nodes = concat (map (RestoreNode ext) nodes)"

text \<open>
  Modelled from the spec: the tree the external parser gives for the content of Example A,
  \<open>Meeting notes #work are important\<close>: one paragraph of text, tag marker, text.
\<close>

definition exampleA_tree :: "node list" where
  "exampleA_tree = [Paragraph [Text ''Meeting notes '', Tag ''work'', Text '' are important'']]"

section \<open>The aggregator\<close>

record TagWithMemos =
  TagNode :: TagNode
  DirectMemoCount :: "32 word"
  TotalMemoCount :: "32 word"
  ParentPath :: string
  ChildPaths :: "string list"

text \<open>
  A Go \<open>map[string]*TagWithMemos\<close> is an association list with distinct keys, kept in
  the order of first insertion (\<open>AList.update\<close> overwrites in place and appends a new
  key). Go iterates a map in an unspecified order; the order of the list is one of them.
\<close>

type_synonym tagMap = "(string \<times> TagWithMemos) list"

fun contains :: "string list \<Rightarrow> string \<Rightarrow> bool" where
  "contains [] item = False"
| "contains (s # rest) item = (if s = item then True else contains rest item)"

text \<open>The body of the inner loop of \<open>aggregateTagsFromMemos\<close>, for one tag of one memo.\<close>

definition aggregateTag :: "int \<Rightarrow> Memo \<Rightarrow> TagNode \<Rightarrow> tagMap \<Rightarrow> tagMap" where
  "aggregateTag creatorID memo tag tagMap =
     (if Name tag = [] then tagMap
      else
        (let tagPath = (if \<not> HasPrefix (Name tag) ''/'' then ''/'' @ Name tag else Name tag)
         in case map_of tagMap tagPath of
              Some existing \<Rightarrow>
                (let ids = MemoIds (TagNode existing);
                     ids' = (if \<not> contains ids (UID memo) then ids @ [UID memo] else ids)
                 in AList.update tagPath
                      (existing\<lparr>TagNode := (TagNode existing)\<lparr>MemoIds := ids'\<rparr>,
                                DirectMemoCount := DirectMemoCount existing + 1\<rparr>) tagMap)
            | None \<Rightarrow>
                (let segments = Split (Trim tagPath ''/'') ''/'';
                     pathSegments = (if length segments = 1 \<and> hd segments = [] then [] else segments)
                 in AList.update tagPath
                      \<lparr>TagNode = \<lparr>Name = tagPath, PathSegments = pathSegments,
                                   MemoIds = [UID memo], CreatorId = creatorID\<rparr>,
                       DirectMemoCount = 1, TotalMemoCount = 1, ParentPath = [],
                       ChildPaths = []\<rparr> tagMap)))"

definition aggregateMemo :: "int \<Rightarrow> Memo \<Rightarrow> tagMap \<Rightarrow> tagMap" where
  "aggregateMemo creatorID memo tagMap =
     (case Payload memo of
        None \<Rightarrow> tagMap
      | Some payload \<Rightarrow>
          if length (Tags payload) = 0 then tagMap
          else fold (aggregateTag creatorID memo) (Tags payload) tagMap)"

text \<open>The error result of the source is always \<open>nil\<close>; the model returns the map.\<close>

definition aggregateTagsFromMemos :: "Memo list \<Rightarrow> int \<Rightarrow> tagMap" where
  "aggregateTagsFromMemos memos creatorID = fold (aggregateMemo creatorID) memos []"

section \<open>The hierarchy builder\<close>

definition LastIndex :: "string \<Rightarrow> string \<Rightarrow> int" where
  "LastIndex s sub =
     (case filter (\<lambda>i. prefix sub (drop i s)) (rev [0..<Suc (length s)]) of
        [] \<Rightarrow> - 1
      | i # _ \<Rightarrow> int i)"

text \<open>
  \<open>calculateTotalMemoCount\<close> recurses over \<open>ChildPaths\<close> with a shared \<open>visited\<close> map,
  which it mutates; the model returns the total together with the updated \<open>visited\<close>.
  Whether the recursion returns is a claim, so the model counts the call depth down
  from \<open>fuel\<close> and is \<open>None\<close> where the depth runs out.

  \<open>sumChildren\<close> is the \<open>for\<close> loop over \<open>tag.ChildPaths\<close>, with the running \<open>total\<close>
  and \<open>visited\<close>; \<open>rec\<close> is the recursive call.
\<close>

fun sumChildren ::
  "(TagWithMemos \<Rightarrow> string set \<Rightarrow> (32 word \<times> string set) option) \<Rightarrow> tagMap \<Rightarrow> string list
     \<Rightarrow> 32 word \<Rightarrow> string set \<Rightarrow> (32 word \<times> string set) option" where
  "sumChildren rec tagMap [] tot visited = Some (tot, visited)"
| "sumChildren rec tagMap (childPath # rest) tot visited =
     (case map_of tagMap childPath of
        None \<Rightarrow> sumChildren rec tagMap rest tot visited
      | Some child \<Rightarrow>
          (case rec child visited of
             None \<Rightarrow> None
           | Some (c, visited') \<Rightarrow> sumChildren rec tagMap rest (tot + c) visited'))"

fun calculateTotalMemoCount ::
  "nat \<Rightarrow> TagWithMemos \<Rightarrow> tagMap \<Rightarrow> string set \<Rightarrow> (32 word \<times> string set) option" where
  "calculateTotalMemoCount 0 tag tagMap visited = None"
| "calculateTotalMemoCount (Suc fuel) tag tagMap visited =
     (if Name (TagNode tag) \<in> visited then Some (0, visited)
      else sumChildren (\<lambda>child vis. calculateTotalMemoCount fuel child tagMap vis) tagMap
             (ChildPaths tag) (DirectMemoCount tag) (insert (Name (TagNode tag)) visited))"

text \<open>
  \<open>addHierarchyInformation\<close> works on pointers: \<open>tagMap\<close> maps each name to the node
  object of the slice that was stored last under it, and the loop mutates the objects of
  the slice, so a lookup in \<open>tagMap\<close> sees the mutations made so far. The model keeps
  the objects in the list \<open>tags\<close>, the pointers as indices into it (\<open>tagIndex\<close>), and
  reads the map through the current list (\<open>derefTagMap\<close>).
\<close>

definition tagIndex :: "TagWithMemos list \<Rightarrow> (string \<times> nat) list" where
  "tagIndex tags =
     fold (\<lambda>i m. AList.update (Name (TagNode (tags ! i))) i m) [0..<length tags] []"

definition derefTagMap :: "(string \<times> nat) list \<Rightarrow> TagWithMemos list \<Rightarrow> tagMap" where
  "derefTagMap idx tags = map (\<lambda>(k, i). (k, tags ! i)) idx"

text \<open>
  The inner loop "find children": of the keys of \<open>tagMap\<close>, those that the two tests of
  the source keep, in the order the keys are visited.
\<close>

definition findChildren :: "string list \<Rightarrow> string \<Rightarrow> string list" where
  "findChildren keys tagPath =
     filter (\<lambda>otherPath. otherPath \<noteq> tagPath \<and> HasPrefix otherPath (tagPath @ ''/'')
               \<and> \<not> Contains (TrimPrefix otherPath (tagPath @ ''/'')) ''/'') keys"

text \<open>
  One iteration of the loop over \<open>tags\<close>, for the node at index \<open>i\<close>. The count
  recursion is started with a depth of two more than \<open>tagMap\<close> has entries, from which
  on every depth gives the same result (section C7).
\<close>

definition hierarchyStep ::
  "(string \<times> nat) list \<Rightarrow> nat \<Rightarrow> TagWithMemos list option \<Rightarrow> TagWithMemos list option" where
  "hierarchyStep idx i acc =
     (case acc of
        None \<Rightarrow> None
      | Some tags \<Rightarrow>
          (let tag = tags ! i;
               tagPath = Name (TagNode tag);
               children = findChildren (map fst idx) tagPath;
               tag1 = tag\<lparr>ChildPaths := ChildPaths tag @ children\<rparr>;
               lastSlash = LastIndex tagPath ''/'';
               tag2 = (if lastSlash > 0
                       then (let parentPath = take (nat lastSlash) tagPath
                             in if map_of idx parentPath \<noteq> None
                                then tag1\<lparr>ParentPath := parentPath\<rparr> else tag1)
                       else tag1);
               tags2 = tags[i := tag2]
           in case calculateTotalMemoCount (length idx + 2) tag2 (derefTagMap idx tags2) {} of
                None \<Rightarrow> None
              | Some (tot, visited) \<Rightarrow> Some (tags2[i := tag2\<lparr>TotalMemoCount := tot\<rparr>])))"

definition addHierarchyInformation :: "TagWithMemos list \<Rightarrow> TagWithMemos list option" where
  "addHierarchyInformation tags =
     fold (hierarchyStep (tagIndex tags)) [0..<length tags] (Some tags)"

section \<open>More of Go's library: \<open>ReplaceAll\<close>, \<open>TrimSpace\<close>, \<open>PathUnescape\<close>\<close>

text \<open>
  \<open>strings.ReplaceAll(s, old, new)\<close> replaces the non-overlapping occurrences of \<open>old\<close>,
  left to right. The engine always passes an \<open>old\<close> that starts with the sigil \<open>#\<close>;
  for an empty \<open>old\<close> Go inserts \<open>new\<close> before every UTF-8 sequence and at the end,
  which the model does byte-wise.
\<close>

function replaceFrom :: "string \<Rightarrow> string \<Rightarrow> string \<Rightarrow> string" where
  "replaceFrom old new [] = []"
| "replaceFrom old new (c # s) =
     (if old \<noteq> [] \<and> prefix old (c # s)
      then new @ replaceFrom old new (drop (length old) (c # s))
      else c # replaceFrom old new s)"
  by pat_completeness auto
termination
  by (relation "measure (\<lambda>(old, new, s). length s)") auto

definition ReplaceAll :: "string \<Rightarrow> string \<Rightarrow> string \<Rightarrow> string" where
  "ReplaceAll s old new =
     (if old = [] then new @ concat (map (\<lambda>c. c # new) s) else replaceFrom old new s)"

text \<open>
  \<open>strings.TrimSpace\<close> removes the leading and the trailing Unicode white space. In the
  bytes of a Go string that is the six ASCII characters (tab, line feed, vertical tab,
  form feed, carriage return, space) and the UTF-8 sequences of U+0085, U+00A0, U+1680,
  U+2000 to U+200A, U+2028, U+2029, U+202F, U+205F and U+3000; a byte that starts none
  of them ends the trimming, as an invalid or non-space rune does in Go.
\<close>

definition spaceEncodings :: "string list" where
  "spaceEncodings =
     [[CHR 0x09], [CHR 0x0A], [CHR 0x0B], [CHR 0x0C], [CHR 0x0D], [CHR 0x20],
      [CHR 0xC2, CHR 0x85], [CHR 0xC2, CHR 0xA0], [CHR 0xE1, CHR 0x9A, CHR 0x80],
      [CHR 0xE2, CHR 0x80, CHR 0x80], [CHR 0xE2, CHR 0x80, CHR 0x81],
      [CHR 0xE2, CHR 0x80, CHR 0x82], [CHR 0xE2, CHR 0x80, CHR 0x83],
      [CHR 0xE2, CHR 0x80, CHR 0x84], [CHR 0xE2, CHR 0x80, CHR 0x85],
      [CHR 0xE2, CHR 0x80, CHR 0x86], [CHR 0xE2, CHR 0x80, CHR 0x87],
      [CHR 0xE2, CHR 0x80, CHR 0x88], [CHR 0xE2, CHR 0x80, CHR 0x89],
      [CHR 0xE2, CHR 0x80, CHR 0x8A], [CHR 0xE2, CHR 0x80, CHR 0xA8],
      [CHR 0xE2, CHR 0x80, CHR 0xA9], [CHR 0xE2, CHR 0x80, CHR 0xAF],
      [CHR 0xE2, CHR 0x81, CHR 0x9F], [CHR 0xE3, CHR 0x80, CHR 0x80]]"

text \<open>Removing from the front of \<open>s\<close>, again and again, whichever of the sequences it starts with.\<close>

function dropSpaces :: "string list \<Rightarrow> string \<Rightarrow> string" where
  "dropSpaces encodings s =
     (case List.find (\<lambda>e. e \<noteq> [] \<and> prefix e s) encodings of
        None \<Rightarrow> s
      | Some e \<Rightarrow> dropSpaces encodings (drop (length e) s))"
  by pat_completeness auto
termination
  by (relation "measure (\<lambda>(encodings, s). length s)")
     (auto simp: find_Some_iff prefix_def)

definition TrimSpace :: "string \<Rightarrow> string" where
  "TrimSpace s =
     rev (dropSpaces (map rev spaceEncodings) (rev (dropSpaces spaceEncodings s)))"

text \<open>
  \<open>url.PathUnescape\<close>: every \<open>%XX\<close> with two hexadecimal digits becomes the byte
  \<open>XX\<close>; a \<open>%\<close> that is not followed by two hexadecimal digits is an error (\<open>None\<close>).
\<close>

definition ishex :: "char \<Rightarrow> bool" where
  "ishex c =
     (let n = (of_char c :: nat)
      in (of_char CHR ''0'' \<le> n \<and> n \<le> of_char CHR ''9'')
         \<or> (of_char CHR ''a'' \<le> n \<and> n \<le> of_char CHR ''f'')
         \<or> (of_char CHR ''A'' \<le> n \<and> n \<le> of_char CHR ''F''))"

definition unhex :: "char \<Rightarrow> nat" where
  "unhex c =
     (let n = (of_char c :: nat)
      in if of_char CHR ''0'' \<le> n \<and> n \<le> of_char CHR ''9'' then n - of_char CHR ''0''
         else if of_char CHR ''a'' \<le> n \<and> n \<le> of_char CHR ''f'' then n - of_char CHR ''a'' + 10
         else if of_char CHR ''A'' \<le> n \<and> n \<le> of_char CHR ''F'' then n - of_char CHR ''A'' + 10
         else 0)"

function PathUnescape :: "string \<Rightarrow> string option" where
  "PathUnescape [] = Some []"
| "PathUnescape (c # s) =
     (if c = CHR ''%''
      then (if 2 \<le> length s \<and> ishex (s ! 0) \<and> ishex (s ! 1)
            then map_option ((#) (char_of (unhex (s ! 0) * 16 + unhex (s ! 1))))
                   (PathUnescape (drop 2 s))
            else None)
      else map_option ((#) c) (PathUnescape s))"
  by pat_completeness auto
termination
  by (relation "measure length") auto

section \<open>The entity store\<close>

text \<open>
  The service reaches the store through three operations. They are the fields of
  \<open>'s Store\<close>, over a store state \<open>'s\<close>; \<open>Inl\<close> is the error an operation returns.
  Listing reads the state; updating and deleting return the new state.
\<close>

record 's Store =
  ListMemos :: "FindMemo \<Rightarrow> 's \<Rightarrow> string + Memo list"
  UpdateMemo :: "UpdateMemo \<Rightarrow> 's \<Rightarrow> string + 's"
  DeleteMemo :: "int \<Rightarrow> 's \<Rightarrow> string + 's"

definition cacheNames :: "Memo \<Rightarrow> string list" where
  "cacheNames memo = (case Memo.Payload memo of None \<Rightarrow> [] | Some payload \<Rightarrow> map Name (Tags payload))"

text \<open>
  Modelled from the spec: the store itself (\<open>ListEntities\<close>, \<open>UpdateEntity\<close>,
  \<open>DeleteEntity\<close>), whose code is not part of the sources, as a list of memos. Listing
  keeps the memos of the owner scope that satisfy every filter: \<open>tag in\<close> is exact
  membership in the cache, \<open>tag starts_with\<close> is "cache contains some path equal to or
  prefixed by \<open>path + "/"\<close>". Updating replaces the content and the cache that are given
  and keeps a field that is not given; deleting removes the memo. None of them fails.
\<close>

fun matchesFilter :: "TagFilter \<Rightarrow> Memo \<Rightarrow> bool" where
  "matchesFilter (TagIn p) memo = (p \<in> set (cacheNames memo))"
| "matchesFilter (TagStartsWith p) memo =
     list_ex (\<lambda>n. n = p \<or> HasPrefix n (p @ ''/'')) (cacheNames memo)"

text \<open>
  Modelled from the spec: the owner scope of \<open>ListEntities\<close>: the creator, the uid when
  one is given, no comments when they are excluded, and every filter.
\<close>

definition matchesFind :: "FindMemo \<Rightarrow> Memo \<Rightarrow> bool" where
  "matchesFind findMemo memo =
     ((case FindMemo.CreatorID findMemo of None \<Rightarrow> True | Some c \<Rightarrow> Memo.CreatorID memo = c)
      \<and> (case FindMemo.UID findMemo of None \<Rightarrow> True | Some u \<Rightarrow> Memo.UID memo = u)
      \<and> (ExcludeComments findMemo \<longrightarrow> ParentID memo = None)
      \<and> list_all (\<lambda>f. matchesFilter f memo) (Filters findMemo))"

text \<open>
  Modelled from the spec: \<open>UpdateEntity(id, content?, tagCache?)\<close> on one memo.
\<close>

definition applyUpdate :: "UpdateMemo \<Rightarrow> Memo \<Rightarrow> Memo" where
  "applyUpdate update memo =
     (if Memo.ID memo = UpdateMemo.ID update
      then memo\<lparr>Memo.Content := (case UpdateMemo.Content update of
                                    None \<Rightarrow> Memo.Content memo | Some c \<Rightarrow> c),
                Memo.Payload := (case UpdateMemo.Payload update of
                                    None \<Rightarrow> Memo.Payload memo | Some p \<Rightarrow> Some p)\<rparr>
      else memo)"

text \<open>
  Modelled from the spec: the three operations on the list of memos.
\<close>

definition memStore :: "Memo list Store" where
  "memStore =
     \<lparr>ListMemos = (\<lambda>findMemo memos. Inr (filter (matchesFind findMemo) memos)),
      UpdateMemo = (\<lambda>update memos. Inr (map (applyUpdate update) memos)),
      DeleteMemo = (\<lambda>memoID memos. Inr (filter (\<lambda>memo. Memo.ID memo \<noteq> memoID) memos))\<rparr>"

section \<open>The mutation engine\<close>

text \<open>
  A handler takes the store, the current user (\<open>None\<close> where \<open>GetCurrentUser\<close> returns
  an error), the request and the store state, and returns its result with the store
  state it leaves behind. An error is its gRPC code with the fixed part of its message.
\<close>

datatype code = InvalidArgument | NotFound | Internal

type_synonym status = "code \<times> string"

subsection \<open>\<open>RenameTag\<close>\<close>

record RenameTagRequest =
  OldTagPath :: string
  NewTagPath :: string
  MoveChildren :: bool

record RenameTagResponse =
  AffectedMemoIds :: "string list"
  RenamedPaths :: "(string \<times> string) list"

text \<open>
  The loop "update each memo's content and payload". Both branches of \<open>MoveChildren\<close>
  replace the same marker and set \<open>updated\<close>, so every memo is written; the write carries
  the memo's id and the new content only.
\<close>

fun renameMemos ::
  "'s Store \<Rightarrow> bool \<Rightarrow> string \<Rightarrow> string \<Rightarrow> Memo list \<Rightarrow> string list \<Rightarrow> (string \<times> string) list
     \<Rightarrow> 's \<Rightarrow> (status + RenameTagResponse) \<times> 's" where
  "renameMemos store moveChildren oldTagPath newTagPath [] affectedMemoIDs renamedPaths s =
     (Inr \<lparr>AffectedMemoIds = affectedMemoIDs, RenamedPaths = renamedPaths\<rparr>, s)"
| "renameMemos store moveChildren oldTagPath newTagPath (memo # memos) affectedMemoIDs renamedPaths s =
     (let newContent =
            (if moveChildren
             then ReplaceAll (Memo.Content memo) (''#'' @ TrimPrefix oldTagPath ''/'')
                    (''#'' @ TrimPrefix newTagPath ''/'')
             else ReplaceAll (Memo.Content memo) (''#'' @ TrimPrefix oldTagPath ''/'')
                    (''#'' @ TrimPrefix newTagPath ''/''))
      in case UpdateMemo store
                \<lparr>UpdateMemo.ID = Memo.ID memo, UpdateMemo.Content = Some newContent,
                 UpdateMemo.Payload = None\<rparr> s of
           Inl err \<Rightarrow> (Inl (Internal, ''failed to update memo content: '' @ err), s)
         | Inr s' \<Rightarrow>
             renameMemos store moveChildren oldTagPath newTagPath memos
               (affectedMemoIDs @ [Memo.UID memo]) (AList.update oldTagPath newTagPath renamedPaths) s')"

definition RenameTag ::
  "'s Store \<Rightarrow> int option \<Rightarrow> RenameTagRequest \<Rightarrow> 's \<Rightarrow> (status + RenameTagResponse) \<times> 's" where
  "RenameTag store user request s =
     (case user of
        None \<Rightarrow> (Inl (Internal, ''failed to get current user''), s)
      | Some userID \<Rightarrow>
          (case PathUnescape (OldTagPath request) of
             None \<Rightarrow> (Inl (InvalidArgument, ''invalid old tag path''), s)
           | Some oldTagPath \<Rightarrow>
               if NewTagPath request = [] then (Inl (InvalidArgument, ''new tag path cannot be empty''), s)
               else
                 (let newTagPath = (if \<not> HasPrefix (NewTagPath request) ''/''
                                    then ''/'' @ NewTagPath request else NewTagPath request);
                      tagFilter = (if MoveChildren request then TagIn oldTagPath else TagIn oldTagPath)
                  in case ListMemos store
                            \<lparr>FindMemo.CreatorID = Some userID, FindMemo.UID = None, Filters = [tagFilter],
                             ExcludeComments = True\<rparr> s of
                       Inl err \<Rightarrow> (Inl (Internal, ''failed to list memos with tag: '' @ err), s)
                     | Inr memos \<Rightarrow>
                         if length memos = 0
                         then (Inl (NotFound, ''no memos found with tag: '' @ oldTagPath), s)
                         else renameMemos store (MoveChildren request) oldTagPath newTagPath memos
                                [] [] s)))"

subsection \<open>\<open>DeleteTag\<close>\<close>

text \<open>
  The strategy is an enum of the request; \<open>OTHER_STRATEGY\<close> is any value of it other
  than the two the handler names.
\<close>

datatype DeleteTagRequest_Strategy = REMOVE_FROM_CONTENT | DELETE_RELATED_MEMOS | OTHER_STRATEGY int

record DeleteTagRequest =
  TagPath :: string
  Strategy :: DeleteTagRequest_Strategy

record DeleteTagResponse =
  AffectedMemoIds :: "string list"
  DeletedTagPaths :: "string list"

fun removeFromContent ::
  "'s Store \<Rightarrow> string \<Rightarrow> Memo list \<Rightarrow> string list \<Rightarrow> 's \<Rightarrow> (status + string list) \<times> 's" where
  "removeFromContent store tagPath [] affectedMemoIDs s = (Inr affectedMemoIDs, s)"
| "removeFromContent store tagPath (memo # memos) affectedMemoIDs s =
     (let tagToRemove = ''#'' @ TrimPrefix tagPath ''/'';
          newContent1 = ReplaceAll (Memo.Content memo) (tagToRemove @ '' '') '''';
          newContent2 = ReplaceAll newContent1 tagToRemove '''';
          newContent = TrimSpace newContent2
      in case UpdateMemo store
                \<lparr>UpdateMemo.ID = Memo.ID memo, UpdateMemo.Content = Some newContent,
                 UpdateMemo.Payload = None\<rparr> s of
           Inl err \<Rightarrow> (Inl (Internal, ''failed to update memo content: '' @ err), s)
         | Inr s' \<Rightarrow> removeFromContent store tagPath memos (affectedMemoIDs @ [Memo.UID memo]) s')"

fun deleteRelatedMemos ::
  "'s Store \<Rightarrow> Memo list \<Rightarrow> string list \<Rightarrow> 's \<Rightarrow> (status + string list) \<times> 's" where
  "deleteRelatedMemos store [] affectedMemoIDs s = (Inr affectedMemoIDs, s)"
| "deleteRelatedMemos store (memo # memos) affectedMemoIDs s =
     (case DeleteMemo store (Memo.ID memo) s of
        Inl err \<Rightarrow> (Inl (Internal, ''failed to delete memo: '' @ err), s)
      | Inr s' \<Rightarrow> deleteRelatedMemos store memos (affectedMemoIDs @ [Memo.UID memo]) s')"

definition DeleteTag ::
  "'s Store \<Rightarrow> int option \<Rightarrow> DeleteTagRequest \<Rightarrow> 's \<Rightarrow> (status + DeleteTagResponse) \<times> 's" where
  "DeleteTag store user request s =
     (case user of
        None \<Rightarrow> (Inl (Internal, ''failed to get current user''), s)
      | Some userID \<Rightarrow>
          (case PathUnescape (TagPath request) of
             None \<Rightarrow> (Inl (InvalidArgument, ''invalid tag path''), s)
           | Some tagPath \<Rightarrow>
               (case ListMemos store
                       \<lparr>FindMemo.CreatorID = Some userID, FindMemo.UID = None,
                        Filters = [TagIn tagPath], ExcludeComments = True\<rparr> s of
                  Inl err \<Rightarrow> (Inl (Internal, ''failed to list memos with tag: '' @ err), s)
                | Inr memos \<Rightarrow>
                    (case Strategy request of
                       REMOVE_FROM_CONTENT \<Rightarrow>
                         (case removeFromContent store tagPath memos [] s of
                            (Inl e, s') \<Rightarrow> (Inl e, s')
                          | (Inr affectedMemoIDs, s') \<Rightarrow>
                              (Inr \<lparr>AffectedMemoIds = affectedMemoIDs,
                                    DeletedTagPaths = [tagPath]\<rparr>, s'))
                     | DELETE_RELATED_MEMOS \<Rightarrow>
                         (case deleteRelatedMemos store memos [] s of
                            (Inl e, s') \<Rightarrow> (Inl e, s')
                          | (Inr affectedMemoIDs, s') \<Rightarrow>
                              (Inr \<lparr>AffectedMemoIds = affectedMemoIDs,
                                    DeletedTagPaths = [tagPath]\<rparr>, s'))
                     | OTHER_STRATEGY k \<Rightarrow>
                         (Inl (InvalidArgument, ''unsupported delete strategy''), s)))))"

subsection \<open>\<open>BatchDeleteMemosByTag\<close>\<close>

record BatchDeleteMemosByTagRequest =
  TagPath :: string
  IncludeChildren :: bool
  DryRun :: bool

record BatchDeleteMemosByTagResponse =
  DeletedMemoIds :: "string list"
  DeletedCount :: "32 word"
  AffectedTagPaths :: "string list"

text \<open>
  A Go \<open>map[string]bool\<close> whose values are all \<open>true\<close> is the list of its keys, without
  repetition, in the order of first insertion; \<open>setKey\<close> is \<open>m[k] = true\<close>. Go ranges
  over the keys in an unspecified order, of which this is one.
\<close>

definition setKey :: "string \<Rightarrow> string list \<Rightarrow> string list" where
  "setKey k keys = (if k \<in> set keys then keys else keys @ [k])"

text \<open>The dry run's map of the tag names found in the listed memos.\<close>

definition dryRunTagMap :: "string \<Rightarrow> Memo list \<Rightarrow> string list" where
  "dryRunTagMap tagPath memos =
     fold (\<lambda>memo tagMap.
             case Memo.Payload memo of
               None \<Rightarrow> tagMap
             | Some payload \<Rightarrow>
                 fold (\<lambda>tag tagMap. if HasPrefix (Name tag) tagPath then setKey (Name tag) tagMap
                                     else tagMap)
                   (Tags payload) tagMap)
       memos []"

text \<open>The deleting loop, with \<open>deletedMemoIDs\<close> and the map \<open>affectedTagPaths\<close>.\<close>

fun deleteMemos ::
  "'s Store \<Rightarrow> BatchDeleteMemosByTagRequest \<Rightarrow> Memo list \<Rightarrow> string list \<Rightarrow> string list \<Rightarrow> 's
     \<Rightarrow> (status + string list \<times> string list) \<times> 's" where
  "deleteMemos store request [] deletedMemoIDs affectedTagPaths s =
     (Inr (deletedMemoIDs, affectedTagPaths), s)"
| "deleteMemos store request (memo # memos) deletedMemoIDs affectedTagPaths s =
     (let affectedTagPaths' =
            (case Memo.Payload memo of
               None \<Rightarrow> affectedTagPaths
             | Some payload \<Rightarrow>
                 fold (\<lambda>tag acc.
                         if IncludeChildren request \<and> HasPrefix (Name tag) (TagPath request)
                         then setKey (Name tag) acc
                         else if Name tag = TagPath request then setKey (Name tag) acc
                         else acc)
                   (Tags payload) affectedTagPaths)
      in case DeleteMemo store (Memo.ID memo) s of
           Inl err \<Rightarrow>
             (Inl (Internal, ''failed to delete memo '' @ Memo.UID memo @ '': '' @ err), s)
         | Inr s' \<Rightarrow>
             deleteMemos store request memos (deletedMemoIDs @ [Memo.UID memo])
               affectedTagPaths' s')"

definition BatchDeleteMemosByTag ::
  "'s Store \<Rightarrow> int option \<Rightarrow> BatchDeleteMemosByTagRequest \<Rightarrow> 's
     \<Rightarrow> (status + BatchDeleteMemosByTagResponse) \<times> 's" where
  "BatchDeleteMemosByTag store user request s =
     (case user of
        None \<Rightarrow> (Inl (Internal, ''failed to get current user''), s)
      | Some userID \<Rightarrow>
          if TagPath request = [] then (Inl (InvalidArgument, ''tag_path is required''), s)
          else
            (let tagFilters = (if IncludeChildren request then [TagStartsWith (TagPath request)]
                               else [TagIn (TagPath request)])
             in case ListMemos store
                       \<lparr>FindMemo.CreatorID = Some userID, FindMemo.UID = None,
                        Filters = tagFilters, ExcludeComments = True\<rparr> s of
                  Inl err \<Rightarrow> (Inl (Internal, ''failed to list memos: '' @ err), s)
                | Inr memos \<Rightarrow>
                    if DryRun request
                    then
                      (let deletedMemoIDs = map Memo.UID memos;
                           affectedTagPaths =
                             [TagPath request] @
                             (if IncludeChildren request
                              then filter (\<lambda>tagPath. tagPath \<noteq> TagPath request)
                                     (dryRunTagMap (TagPath request) memos)
                              else [])
                       in (Inr \<lparr>DeletedMemoIds = deletedMemoIDs,
                                DeletedCount = of_nat (length deletedMemoIDs),
                                AffectedTagPaths = affectedTagPaths\<rparr>, s))
                    else
                      (case deleteMemos store request memos [] [TagPath request] s of
                         (Inl e, s') \<Rightarrow> (Inl e, s')
                       | (Inr (deletedMemoIDs, affectedTagPaths), s') \<Rightarrow>
                           (Inr \<lparr>DeletedMemoIds = deletedMemoIDs,
                                 DeletedCount = of_nat (length deletedMemoIDs),
                                 AffectedTagPaths = affectedTagPaths\<rparr>, s'))))"

section \<open>Notions used in the statements\<close>

text \<open>The names of the nodes a \<open>tagMap\<close> points to: what \<open>visited\<close> can ever hold of it.\<close>

definition nodeNames :: "tagMap \<Rightarrow> string set" where
  "nodeNames tagMap = (\<lambda>kv. Name (TagNode (snd kv))) ` set tagMap"

text \<open>
  \<open>counted pool visited ns visited'\<close>: the nodes \<open>ns\<close>, taken from \<open>pool\<close>, have pairwise
  different names, none of them in \<open>visited\<close>, and \<open>visited'\<close> is \<open>visited\<close> with their
  names added. These are the nodes one count recursion adds up.
\<close>

definition counted :: "TagWithMemos set \<Rightarrow> string set \<Rightarrow> TagWithMemos list \<Rightarrow> string set \<Rightarrow> bool" where
  "counted pool visited ns visited' \<longleftrightarrow>
     set ns \<subseteq> pool \<and> distinct (map (\<lambda>n. Name (TagNode n)) ns) \<and>
     (\<lambda>n. Name (TagNode n)) ` set ns \<inter> visited = {} \<and>
     visited' = visited \<union> (\<lambda>n. Name (TagNode n)) ` set ns"



section \<open>Concrete inputs\<close>

text \<open>A memo of user 7 with the given id, uid and content, cached as the given raw tags give.\<close>

definition memoWith :: "int \<Rightarrow> string \<Rightarrow> string \<Rightarrow> string list \<Rightarrow> Memo" where
  "memoWith i u c raws =
     \<lparr>Memo.ID = i, UID = u, CreatorID = 7, Content = c,
      Payload = Some \<lparr>Tags = map buildTagNode raws, Property = None\<rparr>, ParentID = None\<rparr>"

definition parse_work_a :: "string \<Rightarrow> string + node list" where
  "parse_work_a content = Inr [Paragraph [Tag ''work/a'', Text '' and '', Tag ''home'']]"

definition memo_work_a :: Memo where
  "memo_work_a =
     \<lparr>Memo.ID = 2, UID = ''m2'', CreatorID = 7, Content = ''#work/a and #home'',
      Payload = None, ParentID = None\<rparr>"


definition memos_tree :: "Memo list" where
  "memos_tree =
     [memoWith 1 ''m1'' ''#work #work/a'' [''work'', ''work/a''],
      memoWith 2 ''m2'' ''#work/a/b #work/a'' [''work/a/b'', ''work/a'']]"

definition tagNamed :: "string \<Rightarrow> 32 word \<Rightarrow> string list \<Rightarrow> TagWithMemos" where
  "tagNamed n d cs =
     \<lparr>TagNode = \<lparr>Name = n, PathSegments = [], MemoIds = [], CreatorId = 7\<rparr>,
      DirectMemoCount = d, TotalMemoCount = 1, ParentPath = [], ChildPaths = cs\<rparr>"

text \<open>The manufactured cyclic map: \<open>/a\<close> lists \<open>/b\<close> as its child and \<open>/b\<close> lists \<open>/a\<close>.\<close>

definition cyclicMap :: tagMap where
  "cyclicMap = [(''/a'', tagNamed ''/a'' 3 [''/b'']), (''/b'', tagNamed ''/b'' 5 [''/a''])]"

text \<open>A map with a shared descendant (\<open>/d\<close> under both \<open>/b\<close> and \<open>/c\<close>) and a cycle.\<close>

definition diamondMap :: tagMap where
  "diamondMap =
     [(''/a'', tagNamed ''/a'' 1 [''/b'', ''/c'']), (''/b'', tagNamed ''/b'' 2 [''/d'']),
      (''/c'', tagNamed ''/c'' 3 [''/d'']), (''/d'', tagNamed ''/d'' 4 [''/a''])]"

text \<open>Stores of user 7 for the mutation engine.\<close>

definition store_rename :: "Memo list" where
  "store_rename = [memoWith 1 ''test-rename'' ''Testing rename with #testing tag'' [''testing'']]"

definition store_workshop :: "Memo list" where
  "store_workshop =
     [memoWith 1 ''m1'' ''#work/x #workshop/y'' [''work/x'', ''workshop/y''],
      memoWith 2 ''m2'' ''#home'' [''home'']]"

definition store_work :: "Memo list" where
  "store_work =
     [memoWith 1 ''m1'' ''#work #work/a'' [''work'', ''work/a''],
      memoWith 2 ''m2'' ''#work/a/b'' [''work/a/b''],
      memoWith 3 ''m3'' ''#home'' [''home'']]"

section \<open>C1: what the rebuilt cache holds\<close>

lemma rebuildVisit_tags:
  "set (fst (rebuildVisit n st)) = set (fst st) \<union> (case n of Tag c \<Rightarrow> {c} | _ \<Rightarrow> {})"
  by (cases n; cases st) auto

lemma traverse_tags:
  "set (fst (TraverseASTNodes ns rebuildVisit st)) = set (fst st) \<union> set (traversedTags ns)"
  by (induction ns rebuildVisit st rule: TraverseASTNodes.induct)
     (auto simp: rebuildVisit_tags)

lemma buildTagNode_Name:
  "Name (buildTagNode raw) =
     (if \<not> HasPrefix raw ''/'' \<and> Contains raw ''/'' then ''/'' @ raw else raw)"
  by (simp add: buildTagNode_def Let_def)

lemma buildTagNode_slash:
  "Contains (Name (buildTagNode raw)) ''/'' \<Longrightarrow> HasPrefix (Name (buildTagNode raw)) ''/''"
  by (auto simp: buildTagNode_Name HasPrefix_def split: if_splits)

text \<open>
  C1, as the claim states it, fails: the parse tree of \<open>todo #work\<close> holds the raw tag
  \<open>work\<close>, and the rebuilt cache holds the name \<open>work\<close>, which does not start with
  \<open>/\<close>.
\<close>

theorem C1_simple_tag_counterexample:
  "map Name (Tags (the (Payload (projr (RebuildMemoPayload parse_todo_work memo_todo_work)))))
     = [''work'']
   \<and> \<not> HasPrefix ''work'' ''/''"
  by (simp add: RebuildMemoPayload_def parse_todo_work_def memo_todo_work_def
      buildTagNode_def HasPrefix_def Let_def)

text \<open>
  C1, amended: whenever the content parses, the names in the rebuilt cache are the raw
  tags the traversal reaches, each prefixed with \<open>/\<close> when it lacks a leading \<open>/\<close>
  and contains a \<open>/\<close>, and unchanged otherwise (a raw tag without any \<open>/\<close> is cached
  as it is); so every cached name that contains a \<open>/\<close> starts with \<open>/\<close>.
\<close>

theorem C1_RebuildMemoPayload_cache_names:
  assumes "RebuildMemoPayload parse memo = Inr memo'"
  shows "\<exists>nodes p. parse (Content memo) = Inr nodes \<and> Payload memo' = Some p \<and>
           Name ` set (Tags p) =
             (\<lambda>raw. if \<not> HasPrefix raw ''/'' \<and> Contains raw ''/'' then ''/'' @ raw else raw)
               ` set (traversedTags nodes) \<and>
           (\<forall>t \<in> set (Tags p). Contains (Name t) ''/'' \<longrightarrow> HasPrefix (Name t) ''/'')"
proof -
  from assms obtain nodes where n: "parse (Content memo) = Inr nodes"
    by (auto simp: RebuildMemoPayload_def split: sum.splits)
  define st where "st = TraverseASTNodes nodes rebuildVisit
       ([], \<lparr>HasLink = False, HasTaskList = False, HasCode = False,
              HasIncompleteTasks = False, References = []\<rparr>)"
  define p where "p = (case Payload memo of None \<Rightarrow> \<lparr>Tags = [], Property = None\<rparr> | Some q \<Rightarrow> q)
       \<lparr>Tags := map buildTagNode (fst st), Property := Some (snd st)\<rparr>"
  have m: "memo' = memo\<lparr>Payload := Some p\<rparr>"
    using assms n by (simp add: RebuildMemoPayload_def Let_def p_def st_def split_beta)
  have s: "set (fst st) = set (traversedTags nodes)"
    unfolding st_def by (simp add: traverse_tags)
  have t: "Tags p = map buildTagNode (fst st)" by (simp add: p_def)
  have "Name ` set (Tags p) = (\<lambda>raw. Name (buildTagNode raw)) ` set (traversedTags nodes)"
    by (simp add: t s [symmetric] image_image)
  moreover have "\<forall>t \<in> set (Tags p). Contains (Name t) ''/'' \<longrightarrow> HasPrefix (Name t) ''/''"
    using buildTagNode_slash by (auto simp: t)
  ultimately show ?thesis using n m by (simp add: buildTagNode_Name)
qed

text \<open>The claim holds of the parse tree of \<open>#work/a and #home\<close>.\<close>

theorem C1_cache_names_witness:
  "RebuildMemoPayload parse_work_a memo_work_a
     = Inr (memo_work_a\<lparr>Payload := Some \<lparr>Tags = [buildTagNode ''work/a'', buildTagNode ''home''],
              Property = Some \<lparr>HasLink = False, HasTaskList = False, HasCode = False,
                               HasIncompleteTasks = False, References = []\<rparr>\<rparr>\<rparr>) \<and>
   Name ` set [buildTagNode ''work/a'', buildTagNode ''home''] = {''/work/a'', ''home''}"
proof -
  let ?m = "memo_work_a\<lparr>Payload := Some \<lparr>Tags = [buildTagNode ''work/a'', buildTagNode ''home''],
              Property = Some \<lparr>HasLink = False, HasTaskList = False, HasCode = False,
                               HasIncompleteTasks = False, References = []\<rparr>\<rparr>\<rparr>"
  have h: "RebuildMemoPayload parse_work_a memo_work_a = Inr ?m"
    by (simp add: RebuildMemoPayload_def parse_work_a_def memo_work_a_def)
  from C1_RebuildMemoPayload_cache_names[OF h] obtain nodes p where
    n: "parse_work_a (Content memo_work_a) = Inr nodes" and p: "Payload ?m = Some p" and
    e: "Name ` set (Tags p) =
          (\<lambda>raw. if \<not> HasPrefix raw ''/'' \<and> Contains raw ''/'' then ''/'' @ raw else raw)
            ` set (traversedTags nodes)"
    by blast
  from n have "nodes = [Paragraph [Tag ''work/a'', Text '' and '', Tag ''home'']]"
    by (simp add: parse_work_a_def)
  with e have "Name ` set (Tags p) = {''/work/a'', ''home''}"
    by (auto simp: HasPrefix_def)
  moreover from p have "Tags p = [buildTagNode ''work/a'', buildTagNode ''home'']" by auto
  ultimately show ?thesis using h by simp
qed

section \<open>C4: the structural remover on Example A\<close>

text \<open>
  C4: the tree of Example A serialises to the content of Example A; the structural
  remover for \<open>work\<close> leaves the two text leaves in their paragraph; and the rebuilt tree
  serialises to the text with both spaces around the removed marker kept, whatever the
  serializer writes for the kinds that do not occur.
\<close>

theorem C4_structural_remover_keeps_both_spaces:
  "Restore ext exampleA_tree = ''Meeting notes #work are important'' \<and>
   removeTagFromNodes exampleA_tree ''work''
     = [Paragraph [Text ''Meeting notes '', Text '' are important'']] \<and>
   Restore ext (removeTagFromNodes exampleA_tree ''work'') = ''Meeting notes  are important''"
  by (simp add: exampleA_tree_def Restore_def)

section \<open>C7: the total count recursion returns\<close>

lemma finite_nodeNames: "finite (nodeNames tm)"
  by (simp add: nodeNames_def)
lemma card_nodeNames: "card (nodeNames tm) \<le> length tm"
  unfolding nodeNames_def by (metis card_image_le card_length le_trans List.finite_set)

lemma calc_visited:
  "Name (TagNode tag) \<in> V \<Longrightarrow> calculateTotalMemoCount (Suc n) tag tm V = Some (0, V)"
  by simp

lemma calc_unvisited:
  "Name (TagNode tag) \<notin> V \<Longrightarrow> calculateTotalMemoCount (Suc n) tag tm V =
     sumChildren (\<lambda>child vis. calculateTotalMemoCount n child tm vis) tm (ChildPaths tag)
       (DirectMemoCount tag) (insert (Name (TagNode tag)) V)"
  by simp

declare calculateTotalMemoCount.simps(2) [simp del]

lemma sumChildren_mono:
  assumes "\<And>child V r. rec child V = Some r \<Longrightarrow> V \<subseteq> snd r"
    and "sumChildren rec tm cps t V = Some r"
  shows "V \<subseteq> snd r"
  using assms(2)
proof (induction cps arbitrary: t V)
  case Nil
  then show ?case by auto
next
  case (Cons cp cps)
  show ?case
  proof (cases "map_of tm cp")
    case None
    with Cons show ?thesis by simp
  next
    case (Some child)
    with Cons.prems obtain c V1 where r: "rec child V = Some (c, V1)"
      and s: "sumChildren rec tm cps (t + c) V1 = Some r"
      by (auto split: option.splits)
    from assms(1)[OF r] Cons.IH[OF s] show ?thesis by auto
  qed
qed

lemma calc_mono:
  "calculateTotalMemoCount n tag tm V = Some r \<Longrightarrow> V \<subseteq> snd r"
proof (induction n arbitrary: tag V r)
  case 0
  then show ?case by simp
next
  case (Suc n)
  show ?case
  proof (cases "Name (TagNode tag) \<in> V")
    case True
    with Suc.prems show ?thesis by (auto simp: calc_visited)
  next
    case False
    with Suc.prems have
      "sumChildren (\<lambda>child vis. calculateTotalMemoCount n child tm vis) tm (ChildPaths tag)
         (DirectMemoCount tag) (insert (Name (TagNode tag)) V) = Some r"
      by (simp add: calc_unvisited)
    from sumChildren_mono[OF _ this] Suc.IH show ?thesis by blast
  qed
qed

lemma sumChildren_returns:
  assumes mono: "\<And>child V r. rec child V = Some r \<Longrightarrow> V \<subseteq> snd r"
    and tot: "\<And>child V. child \<in> snd ` set tm \<Longrightarrow> card (nodeNames tm - V) < n \<Longrightarrow> rec child V \<noteq> None"
    and "card (nodeNames tm - V) < n"
  shows "sumChildren rec tm cps t V \<noteq> None"
  using assms(3)
proof (induction cps arbitrary: t V)
  case Nil
  then show ?case by simp
next
  case (Cons cp cps)
  show ?case
  proof (cases "map_of tm cp")
    case None
    with Cons show ?thesis by simp
  next
    case (Some child)
    then have "child \<in> snd ` set tm" by (force dest: map_of_SomeD)
    from tot[OF this Cons.prems] obtain c V1 where r: "rec child V = Some (c, V1)" by auto
    from mono[OF r] have "V \<subseteq> V1" by simp
    then have "card (nodeNames tm - V1) \<le> card (nodeNames tm - V)"
      by (intro card_mono) (auto simp: finite_nodeNames)
    with Cons.prems have "card (nodeNames tm - V1) < n" by simp
    from Cons.IH[OF this] Some r show ?thesis by simp
  qed
qed

lemma calc_returns_member:
  "tag \<in> snd ` set tm \<Longrightarrow> card (nodeNames tm - V) < n \<Longrightarrow>
     calculateTotalMemoCount n tag tm V \<noteq> None"
proof (induction n arbitrary: tag V)
  case 0
  then show ?case by simp
next
  case (Suc n)
  show ?case
  proof (cases "Name (TagNode tag) \<in> V")
    case True
    then show ?thesis by (simp add: calc_visited)
  next
    case False
    with Suc.prems(1) have "Name (TagNode tag) \<in> nodeNames tm - V"
      by (auto simp: nodeNames_def)
    then have "card (nodeNames tm - insert (Name (TagNode tag)) V) < card (nodeNames tm - V)"
      by (intro psubset_card_mono) (auto simp: finite_nodeNames)
    with Suc.prems(2) have "card (nodeNames tm - insert (Name (TagNode tag)) V) < n" by simp
    from sumChildren_returns[where rec="\<lambda>child vis. calculateTotalMemoCount n child tm vis", OF calc_mono _ this]
      Suc.IH False
    show ?thesis by (simp add: calc_unvisited)
  qed
qed

lemma calc_returns:
  assumes "length tm + 2 \<le> n"
  shows "calculateTotalMemoCount n tag tm V \<noteq> None"
proof -
  from assms obtain m where n: "n = Suc m" and m: "length tm < m" by (cases n) auto
  show ?thesis
  proof (cases "Name (TagNode tag) \<in> V")
    case True
    then show ?thesis by (simp add: n calc_visited)
  next
    case False
    have "card (nodeNames tm - insert (Name (TagNode tag)) V) \<le> card (nodeNames tm)"
      by (intro card_mono) (auto simp: finite_nodeNames)
    with card_nodeNames[of tm] m have "card (nodeNames tm - insert (Name (TagNode tag)) V) < m" by simp
    from sumChildren_returns[where rec="\<lambda>child vis. calculateTotalMemoCount m child tm vis", OF calc_mono _ this]
      calc_returns_member False
    show ?thesis by (simp add: n calc_unvisited)
  qed
qed

lemma sumChildren_fuel:
  assumes "\<And>child V r. rec child V = Some r \<Longrightarrow> rec' child V = Some r"
    and "sumChildren rec tm cps t V = Some r"
  shows "sumChildren rec' tm cps t V = Some r"
  using assms(2)
proof (induction cps arbitrary: t V)
  case Nil
  then show ?case by simp
next
  case (Cons cp cps)
  show ?case
  proof (cases "map_of tm cp")
    case None
    with Cons show ?thesis by simp
  next
    case (Some child)
    with Cons.prems obtain c V1 where r: "rec child V = Some (c, V1)"
      and s: "sumChildren rec tm cps (t + c) V1 = Some r"
      by (auto split: option.splits)
    from assms(1)[OF r] Cons.IH[OF s] Some show ?thesis by simp
  qed
qed

lemma calc_fuel_Suc:
  "calculateTotalMemoCount n tag tm V = Some r \<Longrightarrow> calculateTotalMemoCount (Suc n) tag tm V = Some r"
proof (induction n arbitrary: tag V r)
  case 0
  then show ?case by simp
next
  case (Suc n)
  show ?case
  proof (cases "Name (TagNode tag) \<in> V")
    case True
    with Suc.prems show ?thesis by (simp add: calc_visited)
  next
    case False
    with Suc.prems have
      "sumChildren (\<lambda>child vis. calculateTotalMemoCount n child tm vis) tm (ChildPaths tag)
         (DirectMemoCount tag) (insert (Name (TagNode tag)) V) = Some r"
      by (simp add: calc_unvisited)
    from sumChildren_fuel[where rec'="\<lambda>child vis. calculateTotalMemoCount (Suc n) child tm vis", OF _ this] Suc.IH
    have "sumChildren (\<lambda>child vis. calculateTotalMemoCount (Suc n) child tm vis) tm (ChildPaths tag)
         (DirectMemoCount tag) (insert (Name (TagNode tag)) V) = Some r" by blast
    with False show ?thesis by (simp add: calc_unvisited)
  qed
qed

lemma calc_fuel_le:
  "n \<le> m \<Longrightarrow> calculateTotalMemoCount n tag tm V = Some r \<Longrightarrow> calculateTotalMemoCount m tag tm V = Some r"
proof (induction m)
  case 0
  then show ?case by simp
next
  case (Suc m)
  show ?case
  proof (cases "n = Suc m")
    case True
    with Suc.prems show ?thesis by simp
  next
    case False
    with Suc.prems have "n \<le> m" by simp
    from calc_fuel_Suc[OF Suc.IH[OF this Suc.prems(2)]] show ?thesis .
  qed
qed

text \<open>
  C7: for any map, cyclic ones included, any starting node and any \<open>visited\<close>, the
  total count recursion returns: there is one result that every call depth from
  \<open>length tagMap + 2\<close> on gives, so the recursion never runs deeper than that.
\<close>

theorem C7_calculateTotalMemoCount_returns:
  "\<exists>r. \<forall>fuel. length tagMap + 2 \<le> fuel \<longrightarrow> calculateTotalMemoCount fuel tag tagMap visited = Some r"
proof -
  from calc_returns[of tagMap "length tagMap + 2" tag visited]
  obtain r where r: "calculateTotalMemoCount (length tagMap + 2) tag tagMap visited = Some r" by auto
  then have "\<forall>fuel. length tagMap + 2 \<le> fuel \<longrightarrow> calculateTotalMemoCount fuel tag tagMap visited = Some r"
    using calc_fuel_le by blast
  then show ?thesis ..
qed

text \<open>On the cyclic map the recursion returns 8 at depth 4 and at depth 9.\<close>

theorem C7_cyclic_map_witness:
  "calculateTotalMemoCount 4 (tagNamed ''/a'' 3 [''/b'']) cyclicMap {} = Some (8, {''/a'', ''/b''}) \<and>
   calculateTotalMemoCount 9 (tagNamed ''/a'' 3 [''/b'']) cyclicMap {} = Some (8, {''/a'', ''/b''})"
proof -
  from C7_calculateTotalMemoCount_returns[of cyclicMap "tagNamed ''/a'' 3 [''/b'']" "{}"]
  obtain r where r: "\<And>fuel. length cyclicMap + 2 \<le> fuel \<Longrightarrow>
      calculateTotalMemoCount fuel (tagNamed ''/a'' 3 [''/b'']) cyclicMap {} = Some r" by blast
  have l: "length cyclicMap + 2 \<le> 4" "length cyclicMap + 2 \<le> 9" by (simp_all add: cyclicMap_def)
  have e: "calculateTotalMemoCount 4 (tagNamed ''/a'' 3 [''/b'']) cyclicMap {} = Some (8, {''/a'', ''/b''})"
    by (simp add: eval_nat_numeral calculateTotalMemoCount.simps cyclicMap_def tagNamed_def insert_commute)
  with r[OF l(1)] have "r = (8, {''/a'', ''/b''})" by simp
  with r[OF l(2)] e show ?thesis by simp
qed

section \<open>C10: every node is counted at most once\<close>

lemma counted_Nil: "counted pool V [] V"
  by (simp add: counted_def)

lemma counted_append:
  "counted pool V ns V1 \<Longrightarrow> counted pool V1 ms V2 \<Longrightarrow> counted pool V (ns @ ms) V2"
  by (auto simp: counted_def)

lemma counted_Cons:
  "tag \<in> pool \<Longrightarrow> Name (TagNode tag) \<notin> V \<Longrightarrow> counted pool (insert (Name (TagNode tag)) V) ns V'
     \<Longrightarrow> counted pool V (tag # ns) V'"
  by (auto simp: counted_def)

lemma counted_pool_mono: "counted pool V ns V' \<Longrightarrow> pool \<subseteq> pool' \<Longrightarrow> counted pool' V ns V'"
  by (auto simp: counted_def)

lemma sumChildren_counted:
  assumes rec: "\<And>child V t V'. child \<in> snd ` set tm \<Longrightarrow> rec child V = Some (t, V') \<Longrightarrow>
      \<exists>ns. counted (snd ` set tm) V ns V' \<and> t = sum_list (map DirectMemoCount ns)"
    and "sumChildren rec tm cps t0 V = Some (t, V')"
  shows "\<exists>ns. counted (snd ` set tm) V ns V' \<and> t = t0 + sum_list (map DirectMemoCount ns)"
  using assms(2)
proof (induction cps arbitrary: t0 V)
  case Nil
  then show ?case using counted_Nil by (intro exI[of _ "[]"]) simp
next
  case (Cons cp cps)
  show ?case
  proof (cases "map_of tm cp")
    case None
    with Cons show ?thesis by simp
  next
    case (Some child)
    then have mem: "child \<in> snd ` set tm" by (force dest: map_of_SomeD)
    from Some Cons.prems obtain c V1 where r: "rec child V = Some (c, V1)"
      and s: "sumChildren rec tm cps (t0 + c) V1 = Some (t, V')"
      by (auto split: option.splits)
    from rec[OF mem r] obtain ns where ns: "counted (snd ` set tm) V ns V1"
      "c = sum_list (map DirectMemoCount ns)" by blast
    from Cons.IH[OF s] obtain ms where ms: "counted (snd ` set tm) V1 ms V'"
      "t = t0 + c + sum_list (map DirectMemoCount ms)" by blast
    from counted_append[OF ns(1) ms(1)] ns(2) ms(2) show ?thesis
      by (intro exI[of _ "ns @ ms"]) (simp add: add.assoc)
  qed
qed

lemma calc_counted:
  "calculateTotalMemoCount n tag tm V = Some (t, V') \<Longrightarrow>
     \<exists>ns. counted (insert tag (snd ` set tm)) V ns V' \<and> t = sum_list (map DirectMemoCount ns)"
proof (induction n arbitrary: tag V t V')
  case 0
  then show ?case by simp
next
  case (Suc n)
  show ?case
  proof (cases "Name (TagNode tag) \<in> V")
    case True
    with Suc.prems have "t = 0" "V' = V" by (simp_all add: calc_visited)
    then show ?thesis using counted_Nil by (intro exI[of _ "[]"]) simp
  next
    case False
    with Suc.prems have s:
      "sumChildren (\<lambda>child vis. calculateTotalMemoCount n child tm vis) tm (ChildPaths tag)
         (DirectMemoCount tag) (insert (Name (TagNode tag)) V) = Some (t, V')"
      by (simp add: calc_unvisited)
    have rec: "\<exists>ns. counted (snd ` set tm) W ns W' \<and> c = sum_list (map DirectMemoCount ns)"
      if "child \<in> snd ` set tm" "calculateTotalMemoCount n child tm W = Some (c, W')"
      for child W c W'
      using Suc.IH[OF that(2)] that(1) by (simp add: insert_absorb)
    have "\<exists>ns. counted (snd ` set tm) (insert (Name (TagNode tag)) V) ns V' \<and>
            t = DirectMemoCount tag + sum_list (map DirectMemoCount ns)"
      by (rule sumChildren_counted[OF _ s]) (rule rec)
    then obtain ns where
      ns: "counted (snd ` set tm) (insert (Name (TagNode tag)) V) ns V'"
      "t = DirectMemoCount tag + sum_list (map DirectMemoCount ns)" by blast
    from counted_pool_mono[OF ns(1), of "insert tag (snd ` set tm)"]
    have "counted (insert tag (snd ` set tm)) (insert (Name (TagNode tag)) V) ns V'" by auto
    from counted_Cons[OF _ False this] ns(2) show ?thesis
      by (intro exI[of _ "tag # ns"]) simp
  qed
qed

lemma sum_set_le_sum_list:
  fixes f :: "'a \<Rightarrow> int"
  assumes "\<forall>x \<in> set xs. 0 \<le> f x"
  shows "sum f (set xs) \<le> sum_list (map f xs)"
  using assms
proof (induction xs)
  case Nil
  then show ?case by simp
next
  case (Cons x xs)
  then have "sum f (set xs) \<le> sum_list (map f xs)" and x: "0 \<le> f x" by simp_all
  moreover have "sum f (set (x # xs)) \<le> f x + sum f (set xs)"
    using x by (cases "x \<in> set xs") (simp_all add: insert_absorb)
  ultimately show ?case by simp
qed

lemma sint_sum_list_le:
  fixes ws :: "32 word list"
  assumes "\<forall>w \<in> set ws. 0 \<le> sint w"
  shows "sint (sum_list ws) \<le> sum_list (map sint ws)"
proof -
  have e: "sum_list ws = word_of_int (sum_list (map sint ws))"
    by (induction ws) simp_all
  have "0 \<le> sum_list (map sint ws)" using assms by (intro sum_list_nonneg) auto
  then have "signed_take_bit 31 (sum_list (map sint ws)) \<le> sum_list (map sint ws)"
    by (simp add: signed_take_bit_int_less_eq_self_iff)
  then show ?thesis by (subst e) (simp add: sint_sbintrunc')
qed

text \<open>
  C10: the total computed for a node of the map is at most the sum of the direct counts
  of all entries of the map, whatever the child lists are (shared descendants, cycles),
  for direct counts that are not negative. The counts are \<open>int32\<close>; the total is read
  as such (\<open>sint\<close>) and the sum is the exact one.
\<close>

theorem C10_total_at_most_sum_of_direct:
  assumes P: "tag \<in> snd ` set tagMap"
    and nonneg: "\<forall>node \<in> snd ` set tagMap. 0 \<le> sint (DirectMemoCount node)"
    and fuel: "length tagMap + 2 \<le> fuel"
  shows "\<exists>t visited'. calculateTotalMemoCount fuel tag tagMap visited = Some (t, visited') \<and>
           sint t \<le> (\<Sum>kv\<leftarrow>tagMap. sint (DirectMemoCount (snd kv)))"
proof -
  from calc_returns[OF fuel] obtain t V' where
    r: "calculateTotalMemoCount fuel tag tagMap visited = Some (t, V')" by fastforce
  from calc_counted[OF r] P obtain ns where
    ns: "counted (snd ` set tagMap) visited ns V'" "t = sum_list (map DirectMemoCount ns)"
    by (auto simp: insert_absorb)
  then have sub: "set ns \<subseteq> snd ` set tagMap" and d: "distinct ns"
    by (auto simp: counted_def distinct_map)
  let ?f = "\<lambda>n. sint (DirectMemoCount n)"
  have "sint t \<le> sum_list (map sint (map DirectMemoCount ns))"
    unfolding ns(2) using nonneg sub by (intro sint_sum_list_le) auto
  also have "\<dots> = sum ?f (set ns)"
    using d by (simp add: sum_list_distinct_conv_sum_set comp_def)
  also have "\<dots> \<le> sum ?f (set (map snd tagMap))"
    using sub nonneg by (intro sum_mono2) auto
  also have "\<dots> \<le> sum_list (map ?f (map snd tagMap))"
    using nonneg by (intro sum_set_le_sum_list) auto
  finally show ?thesis using r by (simp add: comp_def)
qed

text \<open>On the map with a shared descendant and a cycle, whose direct counts add up to 10.\<close>

theorem C10_diamond_map_witness:
  "\<exists>t visited'. calculateTotalMemoCount 6 (tagNamed ''/a'' 1 [''/b'', ''/c'']) diamondMap {}
       = Some (t, visited') \<and> sint t \<le> 10"
  using C10_total_at_most_sum_of_direct[of "tagNamed ''/a'' 1 [''/b'', ''/c'']" diamondMap 6 "{}"]
  by (simp add: diamondMap_def tagNamed_def)

section \<open>C6: child paths\<close>

lemma tagIndex_keys_gen:
  "fst ` set (fold (\<lambda>i m. AList.update (f i) i m) is m0) = fst ` set m0 \<union> f ` set is"
  by (induction "is" arbitrary: m0) (auto simp: dom_update)

lemma tagIndex_keys:
  "fst ` set (tagIndex tags) = (\<lambda>t. Name (TagNode t)) ` set tags"
proof -
  have "(\<lambda>i. Name (TagNode (tags ! i))) ` {0..<length tags}
          = (\<lambda>t. Name (TagNode t)) ` (nth tags ` {0..<length tags})"
    by (simp add: image_image)
  also have "\<dots> = (\<lambda>t. Name (TagNode t)) ` set tags"
    by (simp add: nth_image)
  finally show ?thesis by (simp add: tagIndex_def tagIndex_keys_gen)
qed

lemma length_derefTagMap: "length (derefTagMap idx tags) = length idx"
  by (simp add: derefTagMap_def)

lemma hierarchyStep_Some:
  assumes "i < length tags"
  shows "\<exists>x. hierarchyStep idx i (Some tags) = Some (tags[i := x]) \<and>
           Name (TagNode x) = Name (TagNode (tags ! i)) \<and>
           ChildPaths x =
             ChildPaths (tags ! i) @ findChildren (map fst idx) (Name (TagNode (tags ! i)))"
proof -
  define tagPath where "tagPath = Name (TagNode (tags ! i))"
  define tag1 where
    "tag1 = (tags ! i)\<lparr>ChildPaths := ChildPaths (tags ! i) @ findChildren (map fst idx) tagPath\<rparr>"
  define tag2 where "tag2 = (if LastIndex tagPath ''/'' > 0
                       then (let parentPath = take (nat (LastIndex tagPath ''/'')) tagPath
                             in if map_of idx parentPath \<noteq> None
                                then tag1\<lparr>ParentPath := parentPath\<rparr> else tag1)
                       else tag1)"
  define tags2 where "tags2 = tags[i := tag2]"
  have len: "length (derefTagMap idx tags2) + 2 \<le> length idx + 2"
    by (simp add: length_derefTagMap)
  from calc_returns[OF len, of tag2 "{}"] obtain t V where
    c: "calculateTotalMemoCount (length idx + 2) tag2 (derefTagMap idx tags2) {} = Some (t, V)"
    by fastforce
  have step: "hierarchyStep idx i (Some tags) = Some (tags2[i := tag2\<lparr>TotalMemoCount := t\<rparr>])"
    using c
    unfolding hierarchyStep_def tags2_def tag2_def tag1_def tagPath_def Let_def
    by (simp only: option.case prod.case)
  have t2: "Name (TagNode tag2) = tagPath"
    "ChildPaths tag2 = ChildPaths (tags ! i) @ findChildren (map fst idx) tagPath"
    by (simp_all add: tag2_def tag1_def tagPath_def Let_def)
  show ?thesis
    using step t2
    by (intro exI[of _ "tag2\<lparr>TotalMemoCount := t\<rparr>"]) (simp add: tags2_def tagPath_def)
qed

lemma hierarchy_fold:
  assumes "k \<le> length tags"
  shows "\<exists>tags'. fold (hierarchyStep idx) [0..<k] (Some tags) = Some tags' \<and>
           length tags' = length tags \<and>
           (\<forall>i < length tags.
              (i < k \<longrightarrow> Name (TagNode (tags' ! i)) = Name (TagNode (tags ! i)) \<and>
                 ChildPaths (tags' ! i) =
                   ChildPaths (tags ! i) @ findChildren (map fst idx) (Name (TagNode (tags ! i)))) \<and>
              (k \<le> i \<longrightarrow> tags' ! i = tags ! i))"
  using assms
proof (induction k)
  case 0
  then show ?case by simp
next
  case (Suc k)
  then obtain tk where tk: "fold (hierarchyStep idx) [0..<k] (Some tags) = Some tk"
    "length tk = length tags"
    "\<forall>i < length tags.
              (i < k \<longrightarrow> Name (TagNode (tk ! i)) = Name (TagNode (tags ! i)) \<and>
                 ChildPaths (tk ! i) =
                   ChildPaths (tags ! i) @ findChildren (map fst idx) (Name (TagNode (tags ! i)))) \<and>
              (k \<le> i \<longrightarrow> tk ! i = tags ! i)"
    by auto
  from Suc.prems tk(2) have kl: "k < length tk" by simp
  from hierarchyStep_Some[OF kl, of idx] obtain x where
    x: "hierarchyStep idx k (Some tk) = Some (tk[k := x])"
       "Name (TagNode x) = Name (TagNode (tk ! k))"
       "ChildPaths x = ChildPaths (tk ! k) @ findChildren (map fst idx) (Name (TagNode (tk ! k)))"
    by blast
  from tk(3) Suc.prems have same: "tk ! k = tags ! k" by simp
  have "fold (hierarchyStep idx) [0..<Suc k] (Some tags) = Some (tk[k := x])"
    using tk(1) x(1) by simp
  moreover have "length (tk[k := x]) = length tags" using tk(2) by simp
  moreover have "\<forall>i < length tags.
              (i < Suc k \<longrightarrow> Name (TagNode (tk[k := x] ! i)) = Name (TagNode (tags ! i)) \<and>
                 ChildPaths (tk[k := x] ! i) =
                   ChildPaths (tags ! i) @ findChildren (map fst idx) (Name (TagNode (tags ! i)))) \<and>
              (Suc k \<le> i \<longrightarrow> tk[k := x] ! i = tags ! i)"
    using tk(3) tk(2) x(2,3) same by (auto simp: nth_list_update less_Suc_eq)
  ultimately show ?case by blast
qed

lemma findChildren_iff:
  "other \<in> set (findChildren keys P) \<longleftrightarrow>
     other \<in> set keys \<and> HasPrefix other (P @ ''/'') \<and> \<not> Contains (drop (length P + 1) other) ''/''"
proof -
  have "HasPrefix other (P @ ''/'') \<Longrightarrow> other \<noteq> P"
    by (auto simp: HasPrefix_def)
  moreover have "HasPrefix other (P @ ''/'') \<Longrightarrow> TrimPrefix other (P @ ''/'') = drop (length P + 1) other"
    by (simp add: TrimPrefix_def)
  ultimately show ?thesis by (auto simp: findChildren_def)
qed

lemma set_update_cases:
  "(k', v') \<in> set (AList.update k v al) \<Longrightarrow> (k' = k \<and> v' = v) \<or> (k', v') \<in> set al"
  by (induction al) (auto split: if_splits)

lemma aggregateTag_cases:
  assumes "kv \<in> set (aggregateTag c m t tm)"
  shows "kv \<in> set tm \<or>
         (\<exists>existing ids. (fst kv, existing) \<in> set tm \<and>
             snd kv = existing\<lparr>TagNode := (TagNode existing)\<lparr>MemoIds := ids\<rparr>,
                              DirectMemoCount := DirectMemoCount existing + 1\<rparr>) \<or>
         (\<exists>tn. snd kv = \<lparr>TagNode = tn, DirectMemoCount = 1, TotalMemoCount = 1, ParentPath = [],
                       ChildPaths = []\<rparr>)"
proof (cases "Name t = []")
  case True
  with assms show ?thesis by (simp add: aggregateTag_def)
next
  case False
  define tagPath where "tagPath = (if \<not> HasPrefix (Name t) ''/'' then ''/'' @ Name t else Name t)"
  obtain k v where kv: "kv = (k, v)" by (cases kv)
  show ?thesis
  proof (cases "map_of tm tagPath")
    case None
    with assms False have "(k, v) \<in> set (AList.update tagPath
          \<lparr>TagNode = \<lparr>Name = tagPath,
               PathSegments = (let segments = Split (Trim tagPath ''/'') ''/''
                  in if length segments = 1 \<and> hd segments = [] then [] else segments),
               MemoIds = [Memo.UID m], CreatorId = c\<rparr>,
           DirectMemoCount = 1, TotalMemoCount = 1, ParentPath = [], ChildPaths = []\<rparr> tm)"
      unfolding kv aggregateTag_def tagPath_def Let_def by simp
    from set_update_cases[OF this] show ?thesis unfolding kv by auto
  next
    case (Some existing)
    then have mem: "(tagPath, existing) \<in> set tm" by (rule map_of_SomeD)
    define ids where "ids = (if \<not> contains (MemoIds (TagNode existing)) (Memo.UID m)
         then MemoIds (TagNode existing) @ [Memo.UID m] else MemoIds (TagNode existing))"
    from assms False Some have "(k, v) \<in> set (AList.update tagPath
          (existing\<lparr>TagNode := (TagNode existing)\<lparr>MemoIds := ids\<rparr>,
                    DirectMemoCount := DirectMemoCount existing + 1\<rparr>) tm)"
      unfolding kv aggregateTag_def tagPath_def Let_def ids_def by simp
    from set_update_cases[OF this] mem show ?thesis unfolding kv by auto
  qed
qed

lemma aggregateTag_no_children:
  assumes "\<forall>kv \<in> set tm. ChildPaths (snd kv) = []"
  shows "\<forall>kv \<in> set (aggregateTag c m t tm). ChildPaths (snd kv) = []"
proof
  fix kv assume "kv \<in> set (aggregateTag c m t tm)"
  from aggregateTag_cases[OF this] assms show "ChildPaths (snd kv) = []" by force
qed

lemma fold_aggregateTag_no_children:
  "\<forall>kv \<in> set tm. ChildPaths (snd kv) = [] \<Longrightarrow>
     \<forall>kv \<in> set (fold (aggregateTag c m) ts tm). ChildPaths (snd kv) = []"
proof (induction ts arbitrary: tm)
  case Nil
  then show ?case by simp
next
  case (Cons t ts)
  from Cons.IH[OF aggregateTag_no_children[OF Cons.prems]] show ?case by simp
qed

lemma aggregateMemo_no_children:
  assumes "\<forall>kv \<in> set tm. ChildPaths (snd kv) = []"
  shows "\<forall>kv \<in> set (aggregateMemo c m tm). ChildPaths (snd kv) = []"
proof (cases "Memo.Payload m")
  case None
  with assms show ?thesis by (simp add: aggregateMemo_def)
next
  case (Some payload)
  show ?thesis
  proof (cases "length (Tags payload) = 0")
    case True
    with Some assms show ?thesis by (simp add: aggregateMemo_def)
  next
    case False
    with Some have "aggregateMemo c m tm = fold (aggregateTag c m) (Tags payload) tm"
      by (simp add: aggregateMemo_def)
    with fold_aggregateTag_no_children[OF assms] show ?thesis by simp
  qed
qed

lemma fold_aggregateMemo_no_children:
  "\<forall>kv \<in> set tm. ChildPaths (snd kv) = [] \<Longrightarrow>
     \<forall>kv \<in> set (fold (aggregateMemo c) ms tm). ChildPaths (snd kv) = []"
proof (induction ms arbitrary: tm)
  case Nil
  then show ?case by simp
next
  case (Cons m ms)
  from Cons.IH[OF aggregateMemo_no_children[OF Cons.prems]] show ?case by simp
qed

lemma aggregated_no_children:
  assumes "node \<in> snd ` set (aggregateTagsFromMemos memos c)"
  shows "ChildPaths node = []"
proof -
  have "\<forall>kv \<in> set ([] :: tagMap). ChildPaths (snd kv) = []" by simp
  from fold_aggregateMemo_no_children[OF this, of c memos]
  have "\<forall>kv \<in> set (aggregateTagsFromMemos memos c). ChildPaths (snd kv) = []"
    by (simp only: aggregateTagsFromMemos_def)
  with assms show ?thesis by blast
qed

text \<open>
  C6: let \<open>tags\<close> be nodes that enter with no child paths, as every node of an aggregated
  map does (\<open>aggregated_no_children\<close>), in any order and any selection, with or without
  their id lists (the listing passes them filtered and sorted, the single-tag query
  passes them all, and both may clear the id lists first). The hierarchy builder
  returns, keeps every node's place and name, and lists \<open>other\<close> among the child paths of
  the node named \<open>P\<close> exactly when \<open>other\<close> is the name of one of the nodes, starts with
  \<open>P\<close> followed by \<open>/\<close>, and has no further \<open>/\<close> after that prefix.
\<close>

theorem C6_childPaths_one_level_deeper:
  assumes "\<forall>t \<in> set tags. ChildPaths t = []"
  shows "\<exists>tags'. addHierarchyInformation tags = Some tags' \<and> length tags' = length tags \<and>
           (\<forall>i < length tags. Name (TagNode (tags' ! i)) = Name (TagNode (tags ! i)) \<and>
              (\<forall>other. other \<in> set (ChildPaths (tags' ! i)) \<longleftrightarrow>
                     other \<in> (\<lambda>t. Name (TagNode t)) ` set tags \<and>
                     HasPrefix other (Name (TagNode (tags ! i)) @ ''/'') \<and>
                     \<not> Contains (drop (length (Name (TagNode (tags ! i))) + 1) other) ''/''))"
proof -
  from hierarchy_fold[of "length tags" tags "tagIndex tags"] obtain tags' where
    t: "addHierarchyInformation tags = Some tags'" "length tags' = length tags"
       "\<forall>i < length tags. Name (TagNode (tags' ! i)) = Name (TagNode (tags ! i)) \<and>
                 ChildPaths (tags' ! i) =
                   ChildPaths (tags ! i) @ findChildren (map fst (tagIndex tags)) (Name (TagNode (tags ! i)))"
    unfolding addHierarchyInformation_def by auto
  have "\<forall>i < length tags. ChildPaths (tags ! i) = []"
    using assms by simp
  with t(3) have "\<forall>i < length tags. Name (TagNode (tags' ! i)) = Name (TagNode (tags ! i)) \<and>
       ChildPaths (tags' ! i) = findChildren (map fst (tagIndex tags)) (Name (TagNode (tags ! i)))"
    by simp
  then show ?thesis using t(1,2) by (simp add: findChildren_iff tagIndex_keys)
qed

text \<open>
  On the three-level collection: \<open>/work/a\<close> is a child path of \<open>/work\<close> and the
  grandchild \<open>/work/a/b\<close> is not.
\<close>

theorem C6_three_level_witness:
  "''/work/a'' \<in> set (ChildPaths
       (the (addHierarchyInformation (map snd (aggregateTagsFromMemos memos_tree 7))) ! 0)) \<and>
   ''/work/a/b'' \<notin> set (ChildPaths
       (the (addHierarchyInformation (map snd (aggregateTagsFromMemos memos_tree 7))) ! 0))"
proof -
  let ?tags = "map snd (aggregateTagsFromMemos memos_tree 7)"
  have sub: "\<forall>t \<in> set ?tags. ChildPaths t = []"
  proof
    fix t assume "t \<in> set ?tags"
    then have "t \<in> snd ` set (aggregateTagsFromMemos memos_tree 7)" by simp
    then show "ChildPaths t = []" by (rule aggregated_no_children)
  qed
  have names: "map (\<lambda>t. Name (TagNode t)) ?tags = [''/work'', ''/work/a'', ''/work/a/b'']"
    by code_simp
  have len: "length ?tags = 3" by code_simp
  have n0: "Name (TagNode (?tags ! 0)) = ''/work''" by code_simp
  have "set (map (\<lambda>t. Name (TagNode t)) ?tags) = {''/work'', ''/work/a'', ''/work/a/b''}"
    by (simp only: names) simp
  then have ns: "(\<lambda>t. Name (TagNode t)) ` set ?tags = {''/work'', ''/work/a'', ''/work/a/b''}"
    by (simp only: set_map)
  from C6_childPaths_one_level_deeper[OF sub] obtain tags' where
    t: "addHierarchyInformation ?tags = Some tags'" and
    c: "\<And>i other. i < length ?tags \<Longrightarrow> other \<in> set (ChildPaths (tags' ! i)) \<longleftrightarrow>
                     other \<in> (\<lambda>t. Name (TagNode t)) ` set ?tags \<and>
                     HasPrefix other (Name (TagNode (?tags ! i)) @ ''/'') \<and>
                     \<not> Contains (drop (length (Name (TagNode (?tags ! i))) + 1) other) ''/''"
    by blast
  have z: "0 < length ?tags" by (simp only: len)
  from c[OF z, of "''/work/a''"]
  have "''/work/a'' \<in> set (ChildPaths (tags' ! 0)) \<longleftrightarrow>
          ''/work/a'' \<in> {''/work'', ''/work/a'', ''/work/a/b''} \<and>
          HasPrefix ''/work/a'' (''/work'' @ ''/'') \<and>
          \<not> Contains (drop (length ''/work'' + 1) ''/work/a'') ''/''"
    by (simp only: n0 ns)
  then have "''/work/a'' \<in> set (ChildPaths (tags' ! 0))"
    by (simp add: HasPrefix_def)
  moreover from c[OF z, of "''/work/a/b''"]
  have "''/work/a/b'' \<in> set (ChildPaths (tags' ! 0)) \<longleftrightarrow>
          ''/work/a/b'' \<in> {''/work'', ''/work/a'', ''/work/a/b''} \<and>
          HasPrefix ''/work/a/b'' (''/work'' @ ''/'') \<and>
          \<not> Contains (drop (length ''/work'' + 1) ''/work/a/b'') ''/''"
    by (simp only: n0 ns)
  then have "''/work/a/b'' \<notin> set (ChildPaths (tags' ! 0))"
    by (simp add: HasPrefix_def)
  ultimately show ?thesis by (simp add: t) 
qed

section \<open>C5: direct counts\<close>
















section \<open>C2: \<open>RenameTag\<close> and the stored cache\<close>

text \<open>
  C2: on a store with one memo tagged \<open>testing\<close>, \<open>RenameTag\<close> succeeds, reports the
  memo as affected and rewrites its content, and the memo's stored cache is still the
  one name \<open>testing\<close>: the write carries no cache.
\<close>

theorem C2_RenameTag_leaves_old_cache:
  "RenameTag memStore (Some 7)
     \<lparr>OldTagPath = ''testing'', NewTagPath = ''/renamed-testing'', MoveChildren = False\<rparr>
     store_rename
   = (Inr \<lparr>RenameTagResponse.AffectedMemoIds = [''test-rename''],
           RenamedPaths = [(''testing'', ''/renamed-testing'')]\<rparr>,
      [memoWith 1 ''test-rename'' ''Testing rename with #renamed-testing tag'' [''testing'']]) \<and>
   cacheNames (memoWith 1 ''test-rename'' ''Testing rename with #renamed-testing tag'' [''testing''])
     = [''testing'']"
  by code_simp

section \<open>C3: the paths \<open>BatchDeleteMemosByTag\<close> reports\<close>

text \<open>
  C3: with \<open>tagPath = /work\<close> and \<open>includeChildren\<close>, the memo cached as \<open>/work/x\<close> and
  \<open>/workshop/y\<close> is selected through \<open>/work/x\<close>, and the dry run and the deleting run
  both report \<open>/workshop/y\<close>, which does not start with \<open>/work/\<close>.
\<close>

theorem C3_reports_path_without_boundary:
  "BatchDeleteMemosByTag memStore (Some 7)
     \<lparr>TagPath = ''/work'', IncludeChildren = True, DryRun = True\<rparr> store_workshop
   = (Inr \<lparr>DeletedMemoIds = [''m1''], DeletedCount = 1,
           AffectedTagPaths = [''/work'', ''/work/x'', ''/workshop/y'']\<rparr>, store_workshop) \<and>
   BatchDeleteMemosByTag memStore (Some 7)
     \<lparr>TagPath = ''/work'', IncludeChildren = True, DryRun = False\<rparr> store_workshop
   = (Inr \<lparr>DeletedMemoIds = [''m1''], DeletedCount = 1,
           AffectedTagPaths = [''/work'', ''/work/x'', ''/workshop/y'']\<rparr>,
      [memoWith 2 ''m2'' ''#home'' [''home'']]) \<and>
   \<not> HasPrefix ''/workshop/y'' (''/work'' @ ''/'')"
  by code_simp

section \<open>C8: the dry run\<close>

lemma set_setKey: "set (setKey k keys) = insert k (set keys)"
  by (auto simp: setKey_def)

lemma distinct_setKey: "distinct keys \<Longrightarrow> distinct (setKey k keys)"
  by (simp add: setKey_def)

lemma dryRun_tags_fold:
  "distinct acc \<Longrightarrow>
     distinct (fold (\<lambda>tag tagMap. if HasPrefix (Name tag) tp then setKey (Name tag) tagMap else tagMap)
                 ts acc) \<and>
     set (fold (\<lambda>tag tagMap. if HasPrefix (Name tag) tp then setKey (Name tag) tagMap else tagMap)
            ts acc)
       = set acc \<union> {n \<in> Name ` set ts. HasPrefix n tp}"
  by (induction ts arbitrary: acc) (auto simp: set_setKey distinct_setKey)

lemma dryRun_memos_fold:
  "distinct acc \<Longrightarrow>
     distinct (fold (\<lambda>memo tagMap.
             case Memo.Payload memo of
               None \<Rightarrow> tagMap
             | Some payload \<Rightarrow>
                 fold (\<lambda>tag tagMap. if HasPrefix (Name tag) tp then setKey (Name tag) tagMap
                                     else tagMap)
                   (Tags payload) tagMap) memos acc) \<and>
     set (fold (\<lambda>memo tagMap.
             case Memo.Payload memo of
               None \<Rightarrow> tagMap
             | Some payload \<Rightarrow>
                 fold (\<lambda>tag tagMap. if HasPrefix (Name tag) tp then setKey (Name tag) tagMap
                                     else tagMap)
                   (Tags payload) tagMap) memos acc)
       = set acc \<union> {n. \<exists>memo \<in> set memos. n \<in> set (cacheNames memo) \<and> HasPrefix n tp}"
proof (induction memos arbitrary: acc)
  case Nil
  then show ?case by simp
next
  case (Cons memo memos)
  show ?case
  proof (cases "Memo.Payload memo")
    case None
    then have "cacheNames memo = []" by (simp add: cacheNames_def)
    with None Cons.IH[OF Cons.prems] show ?thesis by simp
  next
    case (Some payload)
    then have cn: "set (cacheNames memo) = Name ` set (Tags payload)" by (simp add: cacheNames_def)
    define acc' where "acc' = fold (\<lambda>tag tagMap. if HasPrefix (Name tag) tp then setKey (Name tag) tagMap
                                     else tagMap) (Tags payload) acc"
    from dryRun_tags_fold[OF Cons.prems, of tp "Tags payload"]
    have d: "distinct acc'" and s: "set acc' = set acc \<union> {n \<in> Name ` set (Tags payload). HasPrefix n tp}"
      by (simp_all add: acc'_def)
    from Cons.IH[OF d] Some s cn show ?thesis
      by (simp add: acc'_def[symmetric]) blast
  qed
qed

lemma dryRunTagMap_distinct: "distinct (dryRunTagMap tp memos)"
  using dryRun_memos_fold[of "[]" tp memos] by (simp add: dryRunTagMap_def)

lemma dryRunTagMap_set:
  "set (dryRunTagMap tp memos)
     = {n. \<exists>memo \<in> set memos. n \<in> set (cacheNames memo) \<and> HasPrefix n tp}"
  using dryRun_memos_fold[of "[]" tp memos] by (simp add: dryRunTagMap_def)

lemma deleteMemos_ids:
  "deleteMemos store request memos deleted affected s = (Inr (d, a), s') \<Longrightarrow>
     d = deleted @ map Memo.UID memos"
proof (induction memos arbitrary: deleted affected s)
  case Nil
  then show ?case by simp
next
  case (Cons memo memos)
  from Cons.prems obtain s1 where "DeleteMemo store (Memo.ID memo) s = Inr s1"
    by (auto simp: Let_def split: sum.splits)
  with Cons.prems obtain affected1 where
    "deleteMemos store request memos (deleted @ [Memo.UID memo]) affected1 s1 = (Inr (d, a), s')"
    by (auto simp: Let_def)
  from Cons.IH[OF this] show ?case by simp
qed

text \<open>
  The dry run, for every store: a call with \<open>dryRun\<close> leaves the store state as it was,
  whatever it returns. When it returns a response, the listing of the memos that match
  the tag filter succeeded, and the response holds the uids of all listed memos, their
  number, and the tag paths without repetition: the requested path and, with
  \<open>includeChildren\<close>, every cached name of a listed memo that starts with the requested
  path, with or without a \<open>/\<close> after it. The uids are those that the same call
  without \<open>dryRun\<close> reports as deleted whenever it succeeds.
\<close>

lemma dry_run_leaves_store:
  assumes "DryRun request"
  shows "snd (BatchDeleteMemosByTag store user request s) = s \<and>
    (\<forall>resp. fst (BatchDeleteMemosByTag store user request s) = Inr resp \<longrightarrow>
       (\<exists>memos.
          ListMemos store
            \<lparr>FindMemo.CreatorID = user, FindMemo.UID = None,
             Filters = [if IncludeChildren request then TagStartsWith (TagPath request)
                        else TagIn (TagPath request)],
             ExcludeComments = True\<rparr> s = Inr memos \<and>
          DeletedMemoIds resp = map Memo.UID memos \<and>
          DeletedCount resp = of_nat (length memos) \<and>
          distinct (AffectedTagPaths resp) \<and>
          set (AffectedTagPaths resp) =
            insert (TagPath request)
              (if IncludeChildren request
               then {n. \<exists>memo \<in> set memos. n \<in> set (cacheNames memo) \<and> HasPrefix n (TagPath request)}
               else {}) \<and>
          (\<forall>resp' s'. BatchDeleteMemosByTag store user (request\<lparr>DryRun := False\<rparr>) s = (Inr resp', s')
             \<longrightarrow> DeletedMemoIds resp' = DeletedMemoIds resp)))"
proof (cases user)
  case None
  then show ?thesis by (simp add: BatchDeleteMemosByTag_def)
next
  case (Some userID)
  show ?thesis
  proof (cases "TagPath request = []")
    case True
    with Some show ?thesis by (simp add: BatchDeleteMemosByTag_def)
  next
    case False
    define flt where "flt = (if IncludeChildren request then TagStartsWith (TagPath request)
                        else TagIn (TagPath request))"
    have tf: "(if IncludeChildren request then [TagStartsWith (TagPath request)]
               else [TagIn (TagPath request)]) = [flt]"
      by (simp add: flt_def)
    define findMemo where "findMemo =
            \<lparr>FindMemo.CreatorID = Some userID, FindMemo.UID = None, Filters = [flt],
             ExcludeComments = True\<rparr>"
    have unfold: "BatchDeleteMemosByTag store user r s =
        (case ListMemos store findMemo s of
           Inl err \<Rightarrow> (Inl (Internal, ''failed to list memos: '' @ err), s)
         | Inr memos \<Rightarrow>
             if DryRun r
             then (Inr \<lparr>DeletedMemoIds = map Memo.UID memos,
                        DeletedCount = of_nat (length (map Memo.UID memos)),
                        AffectedTagPaths = [TagPath request] @
                             (if IncludeChildren request
                              then filter (\<lambda>tagPath. tagPath \<noteq> TagPath request)
                                     (dryRunTagMap (TagPath request) memos)
                              else [])\<rparr>, s)
             else (case deleteMemos store r memos [] [TagPath request] s of
                     (Inl e, s') \<Rightarrow> (Inl e, s')
                   | (Inr (deletedMemoIDs, affectedTagPaths), s') \<Rightarrow>
                       (Inr \<lparr>DeletedMemoIds = deletedMemoIDs,
                             DeletedCount = of_nat (length deletedMemoIDs),
                             AffectedTagPaths = affectedTagPaths\<rparr>, s')))"
      if "TagPath r = TagPath request" "IncludeChildren r = IncludeChildren request" for r
      using Some False that
      by (simp only: BatchDeleteMemosByTag_def Let_def option.case if_False tf findMemo_def)
    show ?thesis
    proof (cases "ListMemos store findMemo s")
      case (Inl err)
      with unfold[of request] show ?thesis by simp
    next
      case (Inr memos)
      define resp0 where "resp0 =
         \<lparr>DeletedMemoIds = map Memo.UID memos,
          DeletedCount = of_nat (length (map Memo.UID memos)),
          AffectedTagPaths = [TagPath request] @
                             (if IncludeChildren request
                              then filter (\<lambda>tagPath. tagPath \<noteq> TagPath request)
                                     (dryRunTagMap (TagPath request) memos)
                              else [])\<rparr>"
      have dry: "BatchDeleteMemosByTag store user request s = (Inr resp0, s)"
        using unfold[of request] Inr assms by (simp add: resp0_def)
      have d: "distinct (AffectedTagPaths resp0)"
        by (simp add: resp0_def dryRunTagMap_distinct)
      have st: "set (AffectedTagPaths resp0) =
            insert (TagPath request)
              (if IncludeChildren request
               then {n. \<exists>memo \<in> set memos. n \<in> set (cacheNames memo) \<and> HasPrefix n (TagPath request)}
               else {})"
        by (auto simp: resp0_def dryRunTagMap_set)
      have real: "DeletedMemoIds resp' = DeletedMemoIds resp0"
        if "BatchDeleteMemosByTag store user (request\<lparr>DryRun := False\<rparr>) s = (Inr resp', s')"
        for resp' s'
      proof -
        from that unfold[of "request\<lparr>DryRun := False\<rparr>"] Inr obtain dl af where
          dm: "deleteMemos store (request\<lparr>DryRun := False\<rparr>) memos [] [TagPath request] s
                 = (Inr (dl, af), s')" and r: "DeletedMemoIds resp' = dl"
          by (auto split: prod.splits sum.splits)
        from deleteMemos_ids[OF dm] r show ?thesis by (simp add: resp0_def)
      qed
      have l: "ListMemos store
            \<lparr>FindMemo.CreatorID = user, FindMemo.UID = None,
             Filters = [if IncludeChildren request then TagStartsWith (TagPath request)
                        else TagIn (TagPath request)],
             ExcludeComments = True\<rparr> s = Inr memos"
        using Inr Some by (simp add: findMemo_def flt_def)
      have c: "DeletedMemoIds resp0 = map Memo.UID memos" "DeletedCount resp0 = of_nat (length memos)"
        by (simp_all add: resp0_def)
      show ?thesis
        using l c d st real by (simp add: dry)
    qed
  qed
qed

text \<open>
  C8: the dry run for \<open>/work\<close> with children on the store whose first memo is cached as
  \<open>/work/x\<close> and \<open>/workshop/y\<close> leaves the store as it was and returns the uid of that
  memo, and among its tag paths is \<open>/workshop/y\<close>, which is neither \<open>/work\<close> nor under
  \<open>/work/\<close>: the returned paths are not the matched ones.
\<close>

theorem C8_dry_run_reports_unmatched_path:
  "snd (BatchDeleteMemosByTag memStore (Some 7)
          \<lparr>TagPath = ''/work'', IncludeChildren = True, DryRun = True\<rparr> store_workshop)
     = store_workshop \<and>
   \<not> isl (fst (BatchDeleteMemosByTag memStore (Some 7)
          \<lparr>TagPath = ''/work'', IncludeChildren = True, DryRun = True\<rparr> store_workshop)) \<and>
   DeletedMemoIds (projr (fst (BatchDeleteMemosByTag memStore (Some 7)
          \<lparr>TagPath = ''/work'', IncludeChildren = True, DryRun = True\<rparr> store_workshop)))
     = [''m1''] \<and>
   ''/workshop/y'' \<in> set (AffectedTagPaths (projr (fst (BatchDeleteMemosByTag memStore (Some 7)
          \<lparr>TagPath = ''/work'', IncludeChildren = True, DryRun = True\<rparr> store_workshop)))) \<and>
   ''/workshop/y'' \<noteq> ''/work'' \<and> \<not> HasPrefix ''/workshop/y'' (''/work'' @ ''/'')"
  by code_simp

section \<open>C9: an unsupported delete strategy\<close>

text \<open>
  C9, as the claim states it, fails: where the current user cannot be resolved, a call
  with an unsupported strategy fails with \<open>Internal\<close>, not \<open>InvalidArgument\<close>.
\<close>

theorem C9_unresolved_user_counterexample:
  "DeleteTag memStore None \<lparr>DeleteTagRequest.TagPath = ''work'', Strategy = OTHER_STRATEGY 0\<rparr>
     store_work
   = (Inl (Internal, ''failed to get current user''), store_work)"
  by (simp add: DeleteTag_def)

text \<open>
  C9, amended: a call whose strategy is neither of the two fails and leaves the store
  state as it was. The failure is \<open>InvalidArgument\<close> whenever the current user is
  resolved and the listing of the memos with the tag succeeds if the tag path decodes;
  it is \<open>Internal\<close> where the user is not resolved or that listing fails.
\<close>

theorem C9_unsupported_strategy_fails:
  assumes "Strategy request \<noteq> REMOVE_FROM_CONTENT" and "Strategy request \<noteq> DELETE_RELATED_MEMOS"
  shows "snd (DeleteTag store user request s) = s \<and>
    (\<exists>code msg. fst (DeleteTag store user request s) = Inl (code, msg) \<and>
       (code = InvalidArgument \<longleftrightarrow>
          user \<noteq> None \<and>
          (\<forall>tagPath. PathUnescape (DeleteTagRequest.TagPath request) = Some tagPath \<longrightarrow>
             (\<exists>memos. ListMemos store
                         \<lparr>FindMemo.CreatorID = user, FindMemo.UID = None,
                          Filters = [TagIn tagPath], ExcludeComments = True\<rparr> s = Inr memos))) \<and>
       (code \<noteq> InvalidArgument \<longrightarrow> code = Internal))"
proof (cases user)
  case None
  then show ?thesis by (simp add: DeleteTag_def)
next
  case (Some userID)
  show ?thesis
  proof (cases "PathUnescape (DeleteTagRequest.TagPath request)")
    case None
    with Some show ?thesis by (simp add: DeleteTag_def)
  next
    case tp: (Some tagPath)
    show ?thesis
    proof (cases "ListMemos store
                         \<lparr>FindMemo.CreatorID = Some userID, FindMemo.UID = None,
                          Filters = [TagIn tagPath], ExcludeComments = True\<rparr> s")
      case (Inl err)
      with Some tp show ?thesis by (simp add: DeleteTag_def)
    next
      case (Inr memos)
      from assms obtain k where "Strategy request = OTHER_STRATEGY k"
        by (cases "Strategy request") auto
      with Some tp Inr show ?thesis by (simp add: DeleteTag_def)
    qed
  qed
qed

text \<open>On the store model, for the resolved user 7.\<close>

theorem C9_unsupported_strategy_witness:
  "snd (DeleteTag memStore (Some 7)
          \<lparr>DeleteTagRequest.TagPath = ''work'', Strategy = OTHER_STRATEGY 0\<rparr> store_work)
     = store_work \<and>
   (\<exists>msg. fst (DeleteTag memStore (Some 7)
          \<lparr>DeleteTagRequest.TagPath = ''work'', Strategy = OTHER_STRATEGY 0\<rparr> store_work)
     = Inl (InvalidArgument, msg))"
proof -
  let ?request = "\<lparr>DeleteTagRequest.TagPath = ''work'', Strategy = OTHER_STRATEGY 0\<rparr>"
  have a: "Strategy ?request \<noteq> REMOVE_FROM_CONTENT" "Strategy ?request \<noteq> DELETE_RELATED_MEMOS"
    by simp_all
  have l: "\<exists>memos. ListMemos memStore findMemo store_work = Inr memos" for findMemo
    by (simp add: memStore_def)
  from C9_unsupported_strategy_fails[OF a, of memStore "Some 7" store_work] l
  show ?thesis by auto
qed

end
